theory Spec2Isabelle
  imports Main "HOL-Library.Sublist"
begin

section \<open>Text: Python strings as lists of code points\<close>

text \<open>
  The source is \<^verbatim>\<open>Mnemonics/rag_mnemonics.py\<close>. A Python \<^verbatim>\<open>str\<close> is a sequence of Unicode
  code points, and \<^verbatim>\<open>len\<close>, slicing and the regular expressions of the source all count
  code points, so a string is modelled as a list of natural numbers. ASCII literals are
  written with \<open>ascii\<close>; the four non-ASCII characters of the source get names.
\<close>

type_synonym ustring = "nat list"

definition ascii :: "string \<Rightarrow> ustring" where
  "ascii s = map of_char s"

definition arrow :: nat where
  "arrow = 8594"  \<comment> \<open>U+2192, the arrow token\<close>

definition ellipsis :: nat where
  "ellipsis = 8230"  \<comment> \<open>U+2026, the ellipsis marker\<close>

definition em_dash :: nat where
  "em_dash = 8212"  \<comment> \<open>U+2014\<close>

definition kanji_buy :: nat where
  "kanji_buy = 36023"  \<comment> \<open>U+8CB7, the kanji of the prompt's worked example\<close>

definition quote_right :: nat where
  "quote_right = 8217"  \<comment> \<open>U+2019, the apostrophe of the prompt text\<close>

text \<open>
  \<^verbatim>\<open>str.strip()\<close> without argument and the class \<^verbatim>\<open>\s\<close> of a \<^verbatim>\<open>str\<close> pattern use the same
  table of white space: U+0009..000D, U+001C..0020, U+0085, U+00A0, U+1680, U+2000..200A,
  U+2028, U+2029, U+202F, U+205F and U+3000.
\<close>

definition is_space :: "nat \<Rightarrow> bool" where
  "is_space c \<longleftrightarrow> (9 \<le> c \<and> c \<le> 13) \<or> (28 \<le> c \<and> c \<le> 32) \<or> c = 133 \<or> c = 160
     \<or> c = 5760 \<or> (8192 \<le> c \<and> c \<le> 8202) \<or> c = 8232 \<or> c = 8233 \<or> c = 8239
     \<or> c = 8287 \<or> c = 12288"

definition lstrip :: "ustring \<Rightarrow> ustring" where
  "lstrip s = dropWhile is_space s"

definition rstrip :: "ustring \<Rightarrow> ustring" where
  "rstrip s = rev (dropWhile is_space (rev s))"

definition strip :: "ustring \<Rightarrow> ustring" where
  "strip s = rstrip (lstrip s)"

definition rstrip_chars :: "ustring \<Rightarrow> ustring \<Rightarrow> ustring" where
  \<comment> \<open>\<^verbatim>\<open>s.rstrip(chars)\<close>\<close>
  "rstrip_chars chars s = rev (dropWhile (\<lambda>c. c \<in> set chars) (rev s))"

fun join :: "ustring \<Rightarrow> ustring list \<Rightarrow> ustring" where
  "join sep [] = []"
| "join sep [x] = x"
| "join sep (x # y # ys) = x @ sep @ join sep (y # ys)"

subsection \<open>The Unicode tables of the runtime\<close>

text \<open>
  Lower-casing, case-insensitive matching and the word class \<^verbatim>\<open>\w\<close> depend on the Unicode
  database of the Python runtime. On ASCII they are written out; for the other code points
  they are parameters of the model, so that every theorem holds whatever the database says
  there. \<open>u_lower\<close> is \<^verbatim>\<open>str.lower\<close> on a string with a non-ASCII character, \<open>u_ci p c\<close> says
  that the pattern character \<open>p\<close> matches the text character \<open>c\<close> under \<^verbatim>\<open>re.I\<close> when one
  of them is not ASCII, and \<open>u_alnum\<close> is \<^verbatim>\<open>str.isalnum\<close> beyond ASCII. No white space
  character is alphanumeric.
\<close>

record tables =
  u_lower :: "ustring \<Rightarrow> ustring"
  u_ci :: "nat \<Rightarrow> nat \<Rightarrow> bool"
  u_alnum :: "nat \<Rightarrow> bool"

definition ascii_lower :: "nat \<Rightarrow> nat" where
  "ascii_lower c = (if 65 \<le> c \<and> c \<le> 90 then c + 32 else c)"

definition str_lower :: "tables \<Rightarrow> ustring \<Rightarrow> ustring" where
  "str_lower U s = (if list_all (\<lambda>c. c < 128) s then map ascii_lower s else u_lower U s)"

definition ci_match :: "tables \<Rightarrow> nat \<Rightarrow> nat \<Rightarrow> bool" where
  "ci_match U p c = (if p < 128 \<and> c < 128 then ascii_lower p = ascii_lower c else u_ci U p c)"

definition ascii_alnum :: "nat \<Rightarrow> bool" where
  "ascii_alnum c \<longleftrightarrow> (48 \<le> c \<and> c \<le> 57) \<or> (65 \<le> c \<and> c \<le> 90) \<or> (97 \<le> c \<and> c \<le> 122)"

definition is_word :: "tables \<Rightarrow> nat \<Rightarrow> bool" where
  \<comment> \<open>the class \<^verbatim>\<open>\w\<close>: alphanumeric or underscore\<close>
  "is_word U c = (if c < 128 then ascii_alnum c \<or> c = 95 else u_alnum U c \<and> \<not> is_space c)"

definition basic_tables :: tables where
  \<comment> \<open>tables that know no letter beyond ASCII: lower-casing changes the ASCII capitals
      only, a non-ASCII character matches itself alone and is no word character; they
      agree with the runtime on a text whose cased characters and word characters are
      all ASCII; the concrete runs lower-case and match such text only\<close>
  "basic_tables = \<lparr>u_lower = map ascii_lower, u_ci = (\<lambda>p c. p = c), u_alnum = (\<lambda>c. False)\<rparr>"

subsection \<open>\<^verbatim>\<open>_strip_cjk\<close>, \<^verbatim>\<open>_one_sentence\<close>, \<^verbatim>\<open>_to_ascii\<close>\<close>

definition is_cjk :: "nat \<Rightarrow> bool" where
  \<comment> \<open>the class of \<^verbatim>\<open>_CJK_RE\<close>: U+3040..30FF, U+3400..4DBF, U+4E00..9FFF, U+F900..FAFF\<close>
  "is_cjk c \<longleftrightarrow> (12352 \<le> c \<and> c \<le> 12543) \<or> (13312 \<le> c \<and> c \<le> 19903)
     \<or> (19968 \<le> c \<and> c \<le> 40959) \<or> (63744 \<le> c \<and> c \<le> 64255)"

definition strip_cjk :: "ustring \<Rightarrow> ustring" where
  \<comment> \<open>\<^verbatim>\<open>_CJK_RE.sub("", s)\<close>: every character of the class is deleted\<close>
  "strip_cjk s = filter (\<lambda>c. \<not> is_cjk c) s"

function remove_tags :: "ustring \<Rightarrow> ustring" where
  \<comment> \<open>\<^verbatim>\<open>re.sub(r"<[^>]*>", "", t)\<close>: a \<open><\<close> with a \<open>>\<close> somewhere after it is deleted together
      with everything up to the first such \<open>>\<close>; a \<open><\<close> with no \<open>>\<close> after it stays\<close>
  "remove_tags [] = []"
| "remove_tags (c # r) =
     (if c = 60 \<and> 62 \<in> set r then remove_tags (tl (dropWhile (\<lambda>d. d \<noteq> 62) r))
      else c # remove_tags r)"
  by pat_completeness auto
termination
  by (relation "measure length")
     (auto simp: less_Suc_eq_le intro: le_trans [OF diff_le_self length_dropWhile_le])

definition sentence_end :: "nat \<Rightarrow> bool" where
  \<comment> \<open>\<^verbatim>\<open>[.!?]\<close>\<close>
  "sentence_end c \<longleftrightarrow> c = 46 \<or> c = 33 \<or> c = 63"

fun first_part :: "ustring \<Rightarrow> ustring" where
  \<comment> \<open>\<^verbatim>\<open>re.split(r"(?<=[.!?])\s+", t)[0]\<close>: the text before the first white space that
      follows a sentence end\<close>
  "first_part [] = []"
| "first_part [c] = [c]"
| "first_part (c # d # r) =
     (if sentence_end c \<and> is_space d then [c] else c # first_part (d # r))"

function collapse_ws :: "ustring \<Rightarrow> ustring" where
  \<comment> \<open>\<^verbatim>\<open>re.sub(r"\s+", " ", t)\<close>\<close>
  "collapse_ws [] = []"
| "collapse_ws (c # r) =
     (if is_space c then 32 # collapse_ws (dropWhile is_space r) else c # collapse_ws r)"
  by pat_completeness auto
termination
  by (relation "measure length") (auto simp: length_dropWhile_le less_Suc_eq_le)

definition sentence_core :: "ustring \<Rightarrow> ustring" where
  \<comment> \<open>the value of \<^verbatim>\<open>one\<close> before the length test of \<^verbatim>\<open>_one_sentence\<close>\<close>
  "sentence_core text =
     (let t = strip text;
          t = remove_tags t;
          t = takeWhile (\<lambda>c. c \<noteq> arrow) t;
          one = first_part t
      in strip (collapse_ws one))"

definition one_sentence :: "ustring \<Rightarrow> nat \<Rightarrow> ustring" where
  "one_sentence text max_chars =
     (let t = strip text;
          t = remove_tags t;
          t = takeWhile (\<lambda>c. c \<noteq> arrow) t;
          one = first_part t;
          one = strip (collapse_ws one)
      in if length one > max_chars
         then rstrip_chars (ascii '' ,;:'') (take max_chars one) @ [ellipsis]
         else one)"

fun blank_non_ascii :: "ustring \<Rightarrow> ustring" where
  \<comment> \<open>\<^verbatim>\<open>re.sub(r"[^\x00-\x7F]+", " ", t)\<close>\<close>
  "blank_non_ascii [] = []"
| "blank_non_ascii [c] = [if c < 128 then c else 32]"
| "blank_non_ascii (c # d # r) =
     (if c < 128 then c # blank_non_ascii (d # r)
      else if d < 128 then 32 # blank_non_ascii (d # r)
      else blank_non_ascii (d # r))"

definition to_ascii :: "ustring \<Rightarrow> ustring" where
  "to_ascii text = strip (blank_non_ascii text)"

section \<open>The response normalizer\<close>

subsection \<open>Extraction of the arrow-style line\<close>

text \<open>
  \<^verbatim>\<open>re.search(rf"{re.escape(k)}\s*=\s*.*?ARROW.*", text)\<close>, with the arrow character where
  \<^verbatim>\<open>ARROW\<close> stands. \<open>match_here k s\<close> is the match that starts at the beginning of \<open>s\<close>: the
  literal \<open>k\<close>, white space, \<open>=\<close>, white space, then the first arrow, which \<^verbatim>\<open>.*?\<close> reaches only
  across characters other than the newline, then \<^verbatim>\<open>.*\<close> up to the next newline or the end.
  \<open>search_line\<close> tries the start positions from left to right.
\<close>

definition match_here :: "ustring \<Rightarrow> ustring \<Rightarrow> ustring option" where
  "match_here k s =
     (if prefix k s then
        (case lstrip (drop (length k) s) of
           [] \<Rightarrow> None
         | c # r \<Rightarrow>
             if c \<noteq> 61 then None
             else
               let body = lstrip r in
               if arrow \<in> set body \<and> 10 \<notin> set (takeWhile (\<lambda>d. d \<noteq> arrow) body) then
                 let after = tl (dropWhile (\<lambda>d. d \<noteq> arrow) body);
                     unmatched = dropWhile (\<lambda>d. d \<noteq> 10) after
                 in Some (take (length s - length unmatched) s)
               else None)
      else None)"

fun search_line :: "ustring \<Rightarrow> ustring \<Rightarrow> ustring option" where
  "search_line k [] = match_here k []"
| "search_line k (c # r) =
     (case match_here k (c # r) of Some m \<Rightarrow> Some m | None \<Rightarrow> search_line k r)"

subsection \<open>Removal of a leading repetition\<close>

text \<open>
  \<^verbatim>\<open>re.sub(rf"^(?:{pat}\b\s*:?\s*)+", "", right, flags=re.I)\<close> with \<open>pat\<close> the escaped
  string \<open>P\<close>. \<open>match_group\<close> is one round of the group at the beginning of \<open>s\<close>: \<open>P\<close> in any
  letter case, a word boundary between the last character matched and the next one, then
  white space, one optional colon, white space; it returns the text left over. The greedy
  \<^verbatim>\<open>+\<close> takes rounds as long as one matches, and a round that consumes nothing ends it.
\<close>

definition ci_prefix :: "tables \<Rightarrow> ustring \<Rightarrow> ustring \<Rightarrow> bool" where
  "ci_prefix U P s \<longleftrightarrow> length P \<le> length s \<and> list_all2 (ci_match U) P (take (length P) s)"

definition first_char :: "ustring \<Rightarrow> nat option" where
  "first_char s = (case s of [] \<Rightarrow> None | c # r \<Rightarrow> Some c)"

definition last_char :: "ustring \<Rightarrow> nat option" where
  "last_char s = (if s = [] then None else Some (last s))"

definition word_at :: "tables \<Rightarrow> nat option \<Rightarrow> bool" where
  "word_at U x = (case x of None \<Rightarrow> False | Some c \<Rightarrow> is_word U c)"

definition word_boundary :: "tables \<Rightarrow> nat option \<Rightarrow> nat option \<Rightarrow> bool" where
  \<comment> \<open>\<^verbatim>\<open>\b\<close> between two neighbours; \<open>None\<close> is an end of the string\<close>
  "word_boundary U left right \<longleftrightarrow> word_at U left \<noteq> word_at U right"

definition skip_colon :: "ustring \<Rightarrow> ustring" where
  "skip_colon s = (case s of [] \<Rightarrow> [] | c # r \<Rightarrow> if c = 58 then r else c # r)"

definition match_group :: "tables \<Rightarrow> ustring \<Rightarrow> ustring \<Rightarrow> ustring option" where
  "match_group U P s =
     (if ci_prefix U P s
         \<and> word_boundary U (last_char (take (length P) s)) (first_char (drop (length P) s))
      then Some (lstrip (skip_colon (lstrip (drop (length P) s))))
      else None)"

function strip_leading :: "tables \<Rightarrow> ustring \<Rightarrow> ustring \<Rightarrow> ustring" where
  "strip_leading U P s =
     (case match_group U P s of
        None \<Rightarrow> s
      | Some rest \<Rightarrow> if length rest < length s then strip_leading U P rest else s)"
  by pat_completeness auto
termination
  by (relation "measure (\<lambda>(U, P, s). length s)") auto

declare strip_leading.simps [simp del]

subsection \<open>Steps on the line: lines 160 to 178 of the source\<close>

definition terminal :: "nat \<Rightarrow> bool" where
  \<comment> \<open>the characters of \<^verbatim>\<open>".!?"\<close> and the ellipsis\<close>
  "terminal c \<longleftrightarrow> c = 46 \<or> c = 33 \<or> c = 63 \<or> c = ellipsis"

definition lhs_stripped_right :: "tables \<Rightarrow> ustring \<Rightarrow> ustring \<Rightarrow> ustring" where
  \<comment> \<open>\<^verbatim>\<open>right\<close> after line 168: CJK removed, one sentence, leading \<open>=\<close> and white space
      removed, leading repetition of \<^verbatim>\<open>lhs\<close> removed\<close>
  "lhs_stripped_right U lhs right0 =
     (let right = strip_cjk right0;
          right = one_sentence right 120;
          right = dropWhile (\<lambda>c. c = 61 \<or> is_space c) right
      in if lhs \<noteq> [] then strip_leading U (strip lhs) right else right)"

definition sanitize_right :: "tables \<Rightarrow> ustring \<Rightarrow> ustring \<Rightarrow> ustring \<Rightarrow> ustring" where
  \<comment> \<open>\<^verbatim>\<open>right\<close> after line 176\<close>
  "sanitize_right U lhs meanings right0 =
     (let right = lhs_stripped_right U lhs right0;
          right = (if meanings \<noteq> [] then strip_leading U (strip meanings) right else right);
          right = strip right;
          right = (if right = []
                   then one_sentence (ascii ''Represents '' @ str_lower U meanings @ ascii ''.'') 120
                   else right)
      in if right \<noteq> [] \<and> \<not> terminal (last right) then right @ ascii ''.'' else right)"

definition sanitize :: "tables \<Rightarrow> ustring \<Rightarrow> ustring \<Rightarrow> ustring \<Rightarrow> ustring" where
  \<comment> \<open>lines 161 to 177: the line is split at its first arrow\<close>
  "sanitize U lhs meanings line =
     (if arrow \<in> set line then
        let left = takeWhile (\<lambda>c. c \<noteq> arrow) line;
            right = tl (dropWhile (\<lambda>c. c \<noteq> arrow) line)
        in strip left @ [32, arrow, 32] @ sanitize_right U lhs meanings right
      else line)"

definition synthesized_line :: "tables \<Rightarrow> ustring \<Rightarrow> ustring \<Rightarrow> ustring \<Rightarrow> ustring" where
  \<comment> \<open>line 158\<close>
  "synthesized_line U k lhs meanings =
     k @ ascii '' = '' @ lhs @ [32, arrow, 32] @ ascii ''Represents '' @ str_lower U meanings
       @ ascii '' through its parts.''"

definition normalize :: "tables \<Rightarrow> ustring \<Rightarrow> ustring \<Rightarrow> ustring \<Rightarrow> ustring \<Rightarrow> ustring" where
  \<comment> \<open>lines 150 to 178, from the generated text to the returned line\<close>
  "normalize U k lhs meanings generated =
     (let text = collapse_ws (map (\<lambda>c. if c = 124 then 32 else c) generated);
          line = (case search_line k text of
                    Some m \<Rightarrow> strip m
                  | None \<Rightarrow> synthesized_line U k lhs meanings)
      in sanitize U lhs meanings line)"

definition fallback_line :: "tables \<Rightarrow> ustring \<Rightarrow> ustring \<Rightarrow> ustring \<Rightarrow> ustring" where
  \<comment> \<open>lines 181 and 182, the line of the \<^verbatim>\<open>except\<close> branch\<close>
  "fallback_line U k lhs meanings =
     (let fallback_lhs = (if lhs \<noteq> [] then lhs else if meanings \<noteq> [] then meanings else [em_dash])
      in k @ ascii '' = '' @ fallback_lhs @ [32, arrow, 32] @ ascii ''Represents ''
           @ (if str_lower U meanings \<noteq> [] then str_lower U meanings else ascii ''meaning'')
           @ ascii '' through its parts.'')"

section \<open>The module: lazy globals, retrieval and generation\<close>

text \<open>
  Every \<^verbatim>\<open>raise\<close> is a value: a call returns \<open>Inl e\<close> where the source raises \<open>e\<close>. Only
  subclasses of \<^verbatim>\<open>Exception\<close> are modelled, the ones the \<^verbatim>\<open>except Exception\<close> of line 179
  catches. \<open>LibraryError\<close> stands for whatever a library call raises (file access, imports,
  loading a model, inference); the other constructors are raised by the module's own
  expressions.
\<close>

datatype py_exc = IndexError | KeyError | TypeError | AttributeError | LibraryError

text \<open>
  A record of \<^verbatim>\<open>merged_kanji.json\<close>. Of each record the module reads the keys
  \<^verbatim>\<open>meanings\<close> and \<^verbatim>\<open>wk_radicals\<close>; a key is absent, \<^verbatim>\<open>null\<close>, or a list of strings. A key of
  the store whose value is falsy (\<^verbatim>\<open>null\<close>, \<^verbatim>\<open>{}\<close>) is not in the map, since line 108 treats
  it as absent.
\<close>

datatype jfield = Absent | Null | Strings "ustring list"

record details =
  meanings_field :: jfield
  wk_radicals_field :: jfield

type_synonym kanji_store = "ustring \<Rightarrow> details option"

text \<open>
  What the pipeline call returns: a list whose items are the dictionaries' values under
  \<^verbatim>\<open>generated_text\<close> (\<open>None\<close> for a dictionary without that key), or something that is not a
  list, given by its \<^verbatim>\<open>str()\<close>.
\<close>

datatype resp = RespList "ustring option list" | RespOther ustring

text \<open>
  The world outside the module, as the outcomes of its calls: reading the kanji file;
  the radicals file (\<open>None\<close> when no file matches the pattern of \<^verbatim>\<open>_find_radicals_csv\<close>,
  else the outcome of reading it, a row being the \<^verbatim>\<open>str()\<close> of its \<^verbatim>\<open>Radical\<close> and
  \<^verbatim>\<open>Meaning\<close> cells); loading the sentence embedder, which encodes one text to one
  vector; the nearest-neighbour search of the index over its rows, returning the row
  \<^verbatim>\<open>I[0]\<close> of positions; loading and running the text generation pipeline.
\<close>

record ('e, 'v, 'p) world =
  unicode :: tables
  kanji_json :: "py_exc + kanji_store"
  radicals_csv :: "(py_exc + (ustring \<times> ustring) list) option"
  load_embedder :: "py_exc + 'e"
  encode :: "'e \<Rightarrow> ustring \<Rightarrow> py_exc + 'v"
  search :: "'v list \<Rightarrow> 'v \<Rightarrow> int \<Rightarrow> py_exc + int list"
  load_pipe :: "py_exc + 'p"
  run_pipe :: "'p \<Rightarrow> ustring \<Rightarrow> py_exc + resp"

text \<open>The module's globals of lines 17 to 21; the index is the list of its rows.\<close>

record ('e, 'v, 'p) globals =
  KANJI_DATA :: "kanji_store option"
  RADICAL_DOCS :: "ustring list option"
  EMBEDDER :: "'e option"
  FAISS_INDEX :: "'v list option"
  PIPE :: "'p option"

definition initial_globals :: "('e, 'v, 'p) globals" where
  "initial_globals =
     \<lparr>KANJI_DATA = None, RADICAL_DOCS = None, EMBEDDER = None, FAISS_INDEX = None, PIPE = None\<rparr>"

definition ensure_kanji_data ::
  "('e, 'v, 'p) world \<Rightarrow> ('e, 'v, 'p) globals \<Rightarrow> ('e, 'v, 'p) globals \<times> (py_exc + unit)" where
  "ensure_kanji_data W g =
     (case KANJI_DATA g of
        Some d \<Rightarrow> (g, Inr ())
      | None \<Rightarrow>
          (case kanji_json W of
             Inl e \<Rightarrow> (g, Inl e)
           | Inr d \<Rightarrow> (g\<lparr>KANJI_DATA := Some d\<rparr>, Inr ())))"

definition doc_of_row :: "ustring \<times> ustring \<Rightarrow> ustring" where
  \<comment> \<open>lines 61 to 63\<close>
  "doc_of_row row =
     ascii ''Radical: '' @ to_ascii (fst row) @ [10] @ ascii ''Meaning: '' @ to_ascii (snd row)"

fun encode_all :: "('e, 'v, 'p) world \<Rightarrow> 'e \<Rightarrow> ustring list \<Rightarrow> py_exc + 'v list" where
  \<comment> \<open>\<^verbatim>\<open>_EMBEDDER.encode(docs)\<close>: one row for each text, in order\<close>
  "encode_all W e [] = Inr []"
| "encode_all W e (d # ds) =
     (case encode W e d of
        Inl x \<Rightarrow> Inl x
      | Inr v \<Rightarrow> (case encode_all W e ds of Inl x \<Rightarrow> Inl x | Inr vs \<Rightarrow> Inr (v # vs)))"

definition index_built :: "('e, 'v, 'p) globals \<Rightarrow> bool" where
  \<comment> \<open>the test of line 50\<close>
  "index_built g \<longleftrightarrow> RADICAL_DOCS g \<noteq> None \<and> EMBEDDER g \<noteq> None \<and> FAISS_INDEX g \<noteq> None"

definition ensure_radical_index ::
  "('e, 'v, 'p) world \<Rightarrow> ('e, 'v, 'p) globals \<Rightarrow> ('e, 'v, 'p) globals \<times> (py_exc + unit)" where
  \<comment> \<open>An empty matrix has no second dimension, so \<^verbatim>\<open>shape[1]\<close> of line 69 raises on it.\<close>
  "ensure_radical_index W g =
     (if index_built g then (g, Inr ())
      else
        (case radicals_csv W of
           None \<Rightarrow> (g\<lparr>EMBEDDER := None, FAISS_INDEX := None, RADICAL_DOCS := Some []\<rparr>, Inr ())
         | Some (Inl e) \<Rightarrow> (g, Inl e)
         | Some (Inr rows) \<Rightarrow>
             (let docs = map doc_of_row rows in
              case load_embedder W of
                Inl e \<Rightarrow> (g, Inl e)
              | Inr emb \<Rightarrow>
                  (case encode_all W emb docs of
                     Inl e \<Rightarrow> (g\<lparr>EMBEDDER := Some emb\<rparr>, Inl e)
                   | Inr radical_embeddings \<Rightarrow>
                       if radical_embeddings = [] then (g\<lparr>EMBEDDER := Some emb\<rparr>, Inl IndexError)
                       else (g\<lparr>EMBEDDER := Some emb, FAISS_INDEX := Some radical_embeddings,
                               RADICAL_DOCS := Some docs\<rparr>, Inr ())))))"

definition ensure_pipe ::
  "('e, 'v, 'p) world \<Rightarrow> ('e, 'v, 'p) globals \<Rightarrow> ('e, 'v, 'p) globals \<times> (py_exc + unit)" where
  "ensure_pipe W g =
     (case PIPE g of
        Some p \<Rightarrow> (g, Inr ())
      | None \<Rightarrow>
          (case load_pipe W of
             Inl e \<Rightarrow> (g, Inl e)
           | Inr p \<Rightarrow> (g\<lparr>PIPE := Some p\<rparr>, Inr ())))"

definition getitem :: "'a list \<Rightarrow> int \<Rightarrow> py_exc + 'a" where
  \<comment> \<open>\<^verbatim>\<open>xs[i]\<close>: a negative index counts from the end, an index out of range raises\<close>
  "getitem xs i =
     (if 0 \<le> i \<and> i < int (length xs) then Inr (xs ! nat i)
      else if - int (length xs) \<le> i \<and> i < 0 then Inr (xs ! nat (int (length xs) + i))
      else Inl IndexError)"

fun getitems :: "'a list \<Rightarrow> int list \<Rightarrow> py_exc + 'a list" where
  "getitems xs [] = Inr []"
| "getitems xs (i # is) =
     (case getitem xs i of
        Inl e \<Rightarrow> Inl e
      | Inr x \<Rightarrow> (case getitems xs is of Inl e \<Rightarrow> Inl e | Inr ys \<Rightarrow> Inr (x # ys)))"

definition retrieve_relevant_radicals ::
  "('e, 'v, 'p) world \<Rightarrow> ('e, 'v, 'p) globals \<Rightarrow> ustring \<Rightarrow> int \<Rightarrow> py_exc + ustring list" where
  "retrieve_relevant_radicals W g query_text top_k =
     (case RADICAL_DOCS g of
        None \<Rightarrow> Inr []
      | Some docs \<Rightarrow>
          if docs = [] then Inr []
          else
            (case (EMBEDDER g, FAISS_INDEX g) of
               (Some emb, Some index) \<Rightarrow>
                 (case encode W emb query_text of
                    Inl e \<Rightarrow> Inl e
                  | Inr query_emb \<Rightarrow>
                      (case search W index query_emb top_k of
                         Inl e \<Rightarrow> Inl e
                       | Inr ids \<Rightarrow>
                           getitems docs (filter (\<lambda>i. 0 \<le> i \<and> i < int (length docs)) ids)))
             | _ \<Rightarrow> Inr []))"

definition field_list :: "jfield \<Rightarrow> ustring list option" where
  \<comment> \<open>\<^verbatim>\<open>details.get(key, [])\<close>; \<open>None\<close> is Python's \<^verbatim>\<open>None\<close>\<close>
  "field_list f = (case f of Absent \<Rightarrow> Some [] | Null \<Rightarrow> None | Strings xs \<Rightarrow> Some xs)"

definition py_join :: "ustring \<Rightarrow> ustring list option \<Rightarrow> py_exc + ustring" where
  \<comment> \<open>\<^verbatim>\<open>sep.join(x)\<close> raises on \<^verbatim>\<open>None\<close>\<close>
  "py_join sep x = (case x of None \<Rightarrow> Inl TypeError | Some xs \<Rightarrow> Inr (join sep xs))"

definition build_prompt :: "ustring \<Rightarrow> ustring \<Rightarrow> ustring \<Rightarrow> ustring \<Rightarrow> ustring" where
  \<comment> \<open>lines 118 to 138\<close>
  "build_prompt k lhs meanings radical_context =
     [10] @ ascii ''You are a Kanji mnemonic generator.'' @ [10]
     @ ascii ''Combine the radicals'' @ [quote_right]
     @ ascii '' meanings to create a short, logical English mnemonic.'' @ [10, 10]
     @ ascii ''Follow this exact one-line format:'' @ [10]
     @ k @ ascii '' = '' @ lhs @ [32, arrow, 32] @ ascii ''<short, clear mnemonic>'' @ [10, 10]
     @ ascii ''Rules:'' @ [10]
     @ ascii ''- Use ONLY English words and ASCII punctuation. Never include Japanese/Chinese (kanji, kana, hanzi) in the mnemonic.'' @ [10]
     @ ascii ''- Ignore any non-English visual descriptions; translate their ideas into simple English or omit them.'' @ [10]
     @ ascii ''- Keep it under 120 characters.'' @ [10]
     @ ascii ''- Output exactly one line. No extra text.'' @ [10, 10]
     @ ascii ''Example:'' @ [10]
     @ [kanji_buy] @ ascii '' = Net + Shell '' @ [arrow]
     @ ascii '' Buying involves catching valuable shells in a net.'' @ [10, 10]
     @ ascii ''Context about the radicals (English-only):'' @ [10]
     @ radical_context @ [10, 10]
     @ ascii ''Now generate for '' @ k @ ascii '' ('' @ [34] @ meanings @ [34] @ ascii '').'' @ [10]"

definition response_text :: "resp \<Rightarrow> py_exc + ustring" where
  \<comment> \<open>line 149; an empty list is falsy and its \<^verbatim>\<open>str()\<close> is \<^verbatim>\<open>[]\<close>\<close>
  "response_text r =
     (case r of
        RespList [] \<Rightarrow> Inr (strip (ascii ''[]''))
      | RespList (None # items) \<Rightarrow> Inl KeyError
      | RespList (Some generated_text # items) \<Rightarrow> Inr (strip generated_text)
      | RespOther s \<Rightarrow> Inr (strip s))"

definition try_generate ::
  "('e, 'v, 'p) world \<Rightarrow> ('e, 'v, 'p) globals \<Rightarrow> ustring \<Rightarrow> ustring \<Rightarrow> ustring \<Rightarrow> ustring \<Rightarrow> ustring" where
  \<comment> \<open>lines 140 to 182: the \<^verbatim>\<open>try\<close> block and its \<^verbatim>\<open>except\<close> branch\<close>
  "try_generate W g k lhs meanings prompt =
     (case PIPE g of
        None \<Rightarrow> fallback_line (unicode W) k lhs meanings
      | Some p \<Rightarrow>
          (case run_pipe W p prompt of
             Inl e \<Rightarrow> fallback_line (unicode W) k lhs meanings
           | Inr r \<Rightarrow>
               (case response_text r of
                  Inl e \<Rightarrow> fallback_line (unicode W) k lhs meanings
                | Inr generated \<Rightarrow> normalize (unicode W) k lhs meanings generated)))"

definition not_found :: "ustring \<Rightarrow> ustring" where
  \<comment> \<open>line 109\<close>
  "not_found k = ascii ''Kanji '' @ k @ ascii '' not found.''"

definition mnemonic_body ::
  "('e, 'v, 'p) world \<Rightarrow> ('e, 'v, 'p) globals \<Rightarrow> ustring \<Rightarrow> py_exc + ustring" where
  \<comment> \<open>lines 106 to 182, once the three \<^verbatim>\<open>_ensure\<close> calls have returned\<close>
  "mnemonic_body W g kanji =
     (let k = strip kanji in
      case KANJI_DATA g of
        None \<Rightarrow> Inl AttributeError
      | Some store \<Rightarrow>
          (case store k of
             None \<Rightarrow> Inr (not_found k)
           | Some d \<Rightarrow>
               (case py_join (ascii '', '') (field_list (meanings_field d)) of
                  Inl e \<Rightarrow> Inl e
                | Inr meanings \<Rightarrow>
                    (let radicals_en = field_list (wk_radicals_field d);
                         lhs = (case radicals_en of
                                  None \<Rightarrow> meanings
                                | Some rs \<Rightarrow> if rs \<noteq> [] then join (ascii '' + '') rs else meanings)
                     in case py_join (ascii '' '') radicals_en of
                          Inl e \<Rightarrow> Inl e
                        | Inr query_text \<Rightarrow>
                            (case retrieve_relevant_radicals W g query_text 3 of
                               Inl e \<Rightarrow> Inl e
                             | Inr retrieved \<Rightarrow>
                                 (let radical_context = join [10, 10] retrieved;
                                      prompt = build_prompt k lhs meanings radical_context
                                  in Inr (try_generate W g k lhs meanings prompt)))))))"

definition startup ::
  "('e, 'v, 'p) world \<Rightarrow> ('e, 'v, 'p) globals \<Rightarrow> ('e, 'v, 'p) globals \<times> (py_exc + unit)" where
  \<comment> \<open>lines 102 to 104\<close>
  "startup W g =
     (case ensure_kanji_data W g of
        (g1, Inl e) \<Rightarrow> (g1, Inl e)
      | (g1, Inr u) \<Rightarrow>
          (case ensure_radical_index W g1 of
             (g2, Inl e) \<Rightarrow> (g2, Inl e)
           | (g2, Inr u) \<Rightarrow> ensure_pipe W g2))"

definition generate_mnemonic ::
  "('e, 'v, 'p) world \<Rightarrow> ('e, 'v, 'p) globals \<Rightarrow> ustring
     \<Rightarrow> ('e, 'v, 'p) globals \<times> (py_exc + ustring)" where
  "generate_mnemonic W g kanji =
     (case startup W g of
        (g', Inl e) \<Rightarrow> (g', Inl e)
      | (g', Inr u) \<Rightarrow> (g', mnemonic_body W g' kanji))"

section \<open>A small world for concrete runs\<close>

text \<open>
  One kanji record, the one of the prompt's example; a radicals file of two rows; an
  embedder and a search that stand in for the libraries (the search returns the rows in
  index order and pads with \<open>-1\<close>, as the library does when the index holds fewer than
  \<open>top_k\<close> vectors); a pipeline that answers with a fixed well-formed line.
\<close>

definition example_store :: kanji_store where
  "example_store k =
     (if k = [kanji_buy]
      then Some \<lparr>meanings_field = Strings [ascii ''buy'', ascii ''purchase''],
                 wk_radicals_field = Strings [ascii ''Net'', ascii ''Shell'']\<rparr>
      else None)"

definition flat_search :: "nat list \<Rightarrow> nat \<Rightarrow> int \<Rightarrow> py_exc + int list" where
  "flat_search index q top_k =
     (if top_k \<le> 0 then Inl LibraryError
      else Inr (map int [0..<min (length index) (nat top_k)]
                @ replicate (nat top_k - length index) (- 1)))"

definition example_answer :: ustring where
  "example_answer =
     [kanji_buy] @ ascii '' = Net + Shell '' @ [arrow]
       @ ascii '' Buying involves catching valuable shells in a net.''"

definition example_world :: "(unit, nat, unit) world" where
  "example_world =
     \<lparr>unicode = basic_tables,
      kanji_json = Inr example_store,
      radicals_csv = Some (Inr [(ascii ''Net'', ascii ''net''), (ascii ''Shell'', ascii ''shell'')]),
      load_embedder = Inr (),
      encode = (\<lambda>e t. Inr (length t)),
      search = flat_search,
      load_pipe = Inr (),
      run_pipe = (\<lambda>p prompt. Inr (RespList [Some example_answer]))\<rparr>"

definition long_sentence :: ustring where
  "long_sentence = ascii ''Buying involves catching valuable shells in a net and carrying all of them to the market in order to trade them for rice, salt and tools''"

definition two_sentences :: ustring where
  "two_sentences = ascii ''A shell caught in a net. In old times shells were money, so a net full of shells meant that the fisherman could buy whatever he wanted.''"

definition example_docs :: "ustring list" where
  "example_docs = [ascii ''Radical: Net'' @ [10] @ ascii ''Meaning: net'',
                   ascii ''Radical: Shell'' @ [10] @ ascii ''Meaning: shell'']"

definition example_globals :: "(unit, nat, unit) globals" where
  \<comment> \<open>the globals after a first call in the example world\<close>
  "example_globals =
     \<lparr>KANJI_DATA = Some example_store, RADICAL_DOCS = Some example_docs,
      EMBEDDER = Some (), FAISS_INDEX = Some [25, 29], PIPE = Some ()\<rparr>"

definition kanji_cat :: nat where
  "kanji_cat = 29483"  \<comment> \<open>U+732B, a kanji with no record in the example store\<close>

definition no_csv_world :: "(unit, nat, unit) world" where
  \<comment> \<open>the example world without a radicals file\<close>
  "no_csv_world = example_world\<lparr>radicals_csv := None\<rparr>"

definition failing_world :: "(unit, nat, unit) world" where
  \<comment> \<open>the example world with a pipeline that raises\<close>
  "failing_world = example_world\<lparr>run_pipe := (\<lambda>p prompt. Inl LibraryError)\<rparr>"

text \<open>
  The invariant of the data model, \<^verbatim>\<open>len(documents) == number_of_rows(embedding_matrix)\<close>,
  as a predicate on the globals; it constrains them once both the documents and the index
  exist.
\<close>

definition rows_match :: "('e, 'v, 'p) globals \<Rightarrow> bool" where
  \<comment> \<open>\<^verbatim>\<open>len(documents) == number_of_rows(embedding_matrix)\<close>, when both exist\<close>
  "rows_match g =
     (case (RADICAL_DOCS g, FAISS_INDEX g) of
        (Some docs, Some index) \<Rightarrow> length docs = length index
      | _ \<Rightarrow> True)"

section \<open>Predicates on text, for the statements below\<close>

text \<open>
  \<open>trimmed\<close>: no white space at either end. \<open>no_tag\<close>: no \<open><\<close> with a \<open>>\<close> after it, so
  \<^verbatim>\<open><[^>]*>\<close> matches nowhere. \<open>no_break\<close>: no sentence end followed by white space.
  \<open>single_spaced\<close>: white space occurs only as single blanks. \<open>clean\<close>: all of these and no
  arrow. \<open>settled\<close>: a right-hand side that steps 4 to 10 have nothing left to do on.
\<close>

definition trimmed :: "ustring \<Rightarrow> bool" where
  "trimmed s \<longleftrightarrow> s = [] \<or> (\<not> is_space (hd s) \<and> \<not> is_space (last s))"

fun no_tag :: "ustring \<Rightarrow> bool" where
  "no_tag [] = True"
| "no_tag (c # r) = ((c \<noteq> 60 \<or> 62 \<notin> set r) \<and> no_tag r)"

fun no_break :: "ustring \<Rightarrow> bool" where
  "no_break [] = True"
| "no_break [c] = True"
| "no_break (c # d # r) = (\<not> (sentence_end c \<and> is_space d) \<and> no_break (d # r))"

fun single_spaced :: "ustring \<Rightarrow> bool" where
  "single_spaced [] = True"
| "single_spaced [c] = (\<not> is_space c \<or> c = 32)"
| "single_spaced (c # d # r) =
     ((\<not> is_space c \<or> (c = 32 \<and> \<not> is_space d)) \<and> single_spaced (d # r))"

definition clean :: "ustring \<Rightarrow> bool" where
  "clean r \<longleftrightarrow> arrow \<notin> set r \<and> no_tag r \<and> no_break r \<and> single_spaced r"

definition settled :: "tables \<Rightarrow> ustring \<Rightarrow> ustring \<Rightarrow> ustring \<Rightarrow> bool" where
  "settled U lhs meanings r \<longleftrightarrow>
     r \<noteq> [] \<and> trimmed r \<and> clean r \<and> list_all (\<lambda>c. \<not> is_cjk c) r \<and> length r \<le> 120
     \<and> hd r \<noteq> 61 \<and> terminal (last r)
     \<and> (lhs = [] \<or> \<not> ci_prefix U (strip lhs) r)
     \<and> (meanings = [] \<or> \<not> ci_prefix U (strip meanings) r)"

text \<open>The \<^verbatim>\<open>lhs\<close> and meanings of the example record, and a line that repeats them.\<close>

definition example_lhs :: ustring where
  "example_lhs = ascii ''Net + Shell''"

definition example_meanings :: ustring where
  "example_meanings = ascii ''buy, purchase''"

definition repeated_line :: ustring where
  "repeated_line = [kanji_buy] @ ascii '' = Net + Shell '' @ [arrow]
     @ ascii '' buy, purchase: Net + Shell: a net full of shells.''"


definition kanji_person :: nat where
  "kanji_person = 20154"  \<comment> \<open>U+4EBA, another kanji with no record in the example store\<close>

section \<open>Properties\<close>

lemmas char_eval =
  is_space_def [of "numeral n"] is_cjk_def [of "numeral n"] sentence_end_def [of "numeral n"]
  terminal_def [of "numeral n"] ascii_lower_def [of "numeral n"] ascii_alnum_def [of "numeral n"]
  is_word_def [of U "numeral n"] ci_match_def [of U "numeral n" "numeral k"]
  for n k U

lemmas text_eval =
  ascii_def arrow_def ellipsis_def em_dash_def kanji_buy_def quote_right_def
  lstrip_def rstrip_def strip_def rstrip_chars_def strip_cjk_def char_eval

subsection \<open>The one-sentence stage\<close>

lemma rstrip_chars_prefix: "prefix (rstrip_chars cs s) s"
proof -
  have "rev s = takeWhile (\<lambda>c. c \<in> set cs) (rev s) @ dropWhile (\<lambda>c. c \<in> set cs) (rev s)"
    by simp
  then have "rev (rev s)
      = rev (takeWhile (\<lambda>c. c \<in> set cs) (rev s) @ dropWhile (\<lambda>c. c \<in> set cs) (rev s))"
    by (rule arg_cong)
  then have "s = rstrip_chars cs s @ rev (takeWhile (\<lambda>c. c \<in> set cs) (rev s))"
    unfolding rstrip_chars_def rev_append rev_rev_ident .
  then show ?thesis by (rule prefixI)
qed

lemma one_sentence_core:
  "one_sentence text n =
     (if n < length (sentence_core text)
      then rstrip_chars (ascii '' ,;:'') (take n (sentence_core text)) @ [ellipsis]
      else sentence_core text)"
  by (simp add: one_sentence_def sentence_core_def Let_def)

lemma one_sentence_short:
  "length (sentence_core text) \<le> n \<Longrightarrow> one_sentence text n = sentence_core text"
  by (simp add: one_sentence_core)

text \<open>
  C4, as the code has it. The length test of \<^verbatim>\<open>_one_sentence\<close> is made on the reduced
  sentence (tags removed, cut at the arrow and at the first sentence end, white space
  collapsed), not on the text passed in. Whenever the reduced sentence is longer than 120
  characters, the result ends with the ellipsis marker, and what precedes the marker is a
  prefix of the reduced sentence of at most 120 characters.
\<close>

theorem one_sentence_truncation:
  assumes "120 < length (sentence_core text)"
  shows "last (one_sentence text 120) = ellipsis
       \<and> prefix (butlast (one_sentence text 120)) (sentence_core text)
       \<and> length (butlast (one_sentence text 120)) \<le> 120"
proof -
  let ?kept = "rstrip_chars (ascii '' ,;:'') (take 120 (sentence_core text))"
  have eq: "one_sentence text 120 = ?kept @ [ellipsis]"
    using assms by (simp add: one_sentence_core)
  have p: "prefix ?kept (take 120 (sentence_core text))"
    by (rule rstrip_chars_prefix)
  have "prefix ?kept (sentence_core text)"
    using p take_is_prefix prefix_order.trans by blast
  moreover have "length ?kept \<le> 120"
    using prefix_length_le [OF p] by simp
  ultimately show ?thesis by (simp add: eq)
qed

lemma long_sentence_core: "sentence_core long_sentence = long_sentence"
  unfolding long_sentence_def by (simp add: sentence_core_def text_eval)

lemma long_sentence_length: "length long_sentence = 136"
  unfolding long_sentence_def by (simp add: ascii_def)

theorem one_sentence_truncation_witness:
  "120 < length (sentence_core long_sentence)
   \<and> last (one_sentence long_sentence 120) = ellipsis
   \<and> prefix (butlast (one_sentence long_sentence 120)) (sentence_core long_sentence)
   \<and> length (butlast (one_sentence long_sentence 120)) \<le> 120"
proof -
  have h: "120 < length (sentence_core long_sentence)"
    by (simp add: long_sentence_core long_sentence_length)
  show ?thesis using h one_sentence_truncation [OF h] by simp
qed

text \<open>
  The claim as the spec states it fails: a right-hand side of 135 characters whose first
  sentence is short comes back as that first sentence, with no ellipsis marker.
\<close>

theorem one_sentence_truncation_counterexample:
  "120 < length two_sentences
   \<and> one_sentence two_sentences 120 = ascii ''A shell caught in a net.''
   \<and> last (one_sentence two_sentences 120) \<noteq> ellipsis"
  unfolding two_sentences_def by (simp add: one_sentence_def text_eval)

lemmas world_eval =
  example_world_def example_globals_def example_docs_def initial_globals_def
  startup_def ensure_kanji_data_def ensure_radical_index_def index_built_def ensure_pipe_def
  doc_of_row_def to_ascii_def flat_search_def

lemma example_startup: "startup example_world initial_globals = (example_globals, Inr ())"
  by (simp add: world_eval text_eval)

lemma example_startup_again: "startup example_world example_globals = (example_globals, Inr ())"
  by (simp add: world_eval text_eval)

subsection \<open>Retrieval\<close>

lemma getitems_in_range:
  "getitems docs (filter (\<lambda>i. 0 \<le> i \<and> i < int (length docs)) ids)
     = Inr (map (\<lambda>i. docs ! nat i) (filter (\<lambda>i. 0 \<le> i \<and> i < int (length docs)) ids))"
  by (induction ids) (simp_all add: getitem_def)

lemma in_range_subset:
  "set (map (\<lambda>i. docs ! nat i) (filter (\<lambda>i. 0 \<le> i \<and> i < int (length docs)) ids)) \<subseteq> set docs"
  by auto

text \<open>
  C10. Whatever positions the nearest-neighbour search returns, provided it returns at most
  \<open>top_k\<close> of them, the retriever returns at most \<open>top_k\<close> documents, each an element of
  the stored list: positions out of range (the \<open>-1\<close> padding, or any other) are dropped by
  the guard before the list is indexed. The retriever raises only what the embedder or
  the search raised, never an index error of its own.
\<close>

theorem retrieval_within_documents:
  assumes contract:
    "\<And>index q. case search W index q top_k of Inl e \<Rightarrow> True | Inr ids \<Rightarrow> length ids \<le> nat top_k"
  shows "case retrieve_relevant_radicals W g query_text top_k of
           Inr found \<Rightarrow>
             length found \<le> nat top_k
             \<and> set found \<subseteq> (case RADICAL_DOCS g of None \<Rightarrow> {} | Some docs \<Rightarrow> set docs)
         | Inl e \<Rightarrow>
             (\<exists>emb. EMBEDDER g = Some emb
                \<and> (encode W emb query_text = Inl e
                   \<or> (\<exists>index q. FAISS_INDEX g = Some index \<and> encode W emb query_text = Inr q
                         \<and> search W index q top_k = Inl e)))"
proof (cases "RADICAL_DOCS g")
  case None
  then show ?thesis by (simp add: retrieve_relevant_radicals_def)
next
  case (Some docs)
  show ?thesis
  proof (cases "docs = [] \<or> EMBEDDER g = None \<or> FAISS_INDEX g = None")
    case True
    then show ?thesis using Some
      by (auto simp: retrieve_relevant_radicals_def split: option.splits)
  next
    case False
    then obtain emb index where e: "EMBEDDER g = Some emb" and i: "FAISS_INDEX g = Some index"
      and d: "docs \<noteq> []" by auto
    show ?thesis
    proof (cases "encode W emb query_text")
      case (Inl x)
      then show ?thesis using Some e i d by (simp add: retrieve_relevant_radicals_def)
    next
      case (Inr q)
      show ?thesis
      proof (cases "search W index q top_k")
        case (Inl x)
        then show ?thesis using Some e i d Inr by (simp add: retrieve_relevant_radicals_def)
      next
        case (Inr ids)
        have len: "length ids \<le> nat top_k" using contract [of index q] Inr by simp
        let ?sel = "filter (\<lambda>i. 0 \<le> i \<and> i < int (length docs)) ids"
        have r: "retrieve_relevant_radicals W g query_text top_k = Inr (map (\<lambda>i. docs ! nat i) ?sel)"
          using Some e i d \<open>encode W emb query_text = Inr q\<close> Inr
          by (simp add: retrieve_relevant_radicals_def getitems_in_range)
        have "length (map (\<lambda>i. docs ! nat i) ?sel) \<le> nat top_k"
          using le_trans [OF length_filter_le len] by simp
        then show ?thesis using r Some in_range_subset [of docs ids] by simp
      qed
    qed
  qed
qed

lemma flat_search_contract:
  "case flat_search index q top_k of Inl e \<Rightarrow> True | Inr ids \<Rightarrow> length ids \<le> nat top_k"
  by (auto simp: flat_search_def min_def)

lemma example_retrieval:
  "retrieve_relevant_radicals example_world example_globals (ascii ''Net Shell'') 3 = Inr example_docs"
  by (simp add: retrieve_relevant_radicals_def world_eval getitem_def upt_rec numeral_eq_Suc ascii_def)

theorem retrieval_within_documents_witness:
  "retrieve_relevant_radicals example_world example_globals (ascii ''Net Shell'') 3 = Inr example_docs
   \<and> length example_docs \<le> nat 3
   \<and> set example_docs \<subseteq> (case RADICAL_DOCS example_globals of None \<Rightarrow> {} | Some docs \<Rightarrow> set docs)"
proof -
  have c: "\<And>index q. case search example_world index q 3 of Inl e \<Rightarrow> True | Inr ids \<Rightarrow> length ids \<le> nat 3"
    using flat_search_contract by (simp add: example_world_def)
  show ?thesis
    using retrieval_within_documents
      [where W = example_world and top_k = 3 and g = example_globals
         and query_text = "ascii ''Net Shell''", OF c]
    by (simp add: example_retrieval)
qed

subsection \<open>The index\<close>

lemma encode_all_rows:
  "encode_all W emb docs = Inr vs \<Longrightarrow> list_all2 (\<lambda>d v. encode W emb d = Inr v) docs vs"
  by (induction docs arbitrary: vs) (auto split: sum.splits)

text \<open>
  C9. A call of \<^verbatim>\<open>_ensure_radical_index\<close> keeps the invariant that documents and index
  rows are equally many. When the index is already built the call changes nothing. When it
  builds the index from a radicals file, the documents are the rows of the file in order,
  the index has one row for each, and the row at a position is the embedding of the
  document at that position. When there is no radicals file the call returns normally,
  leaving no embedder and no index, and a further call in that state returns normally
  and leaves the state as it is.
\<close>

theorem index_rows_match_documents:
  assumes "rows_match g" and "ensure_radical_index W g = (g', r)"
  shows "rows_match g'
       \<and> (if index_built g then g' = g \<and> r = Inr ()
          else case radicals_csv W of
                 None \<Rightarrow>
                   r = Inr () \<and> RADICAL_DOCS g' = Some [] \<and> EMBEDDER g' = None
                   \<and> FAISS_INDEX g' = None \<and> ensure_radical_index W g' = (g', Inr ())
               | Some csv \<Rightarrow>
                   (case r of
                      Inl e \<Rightarrow> RADICAL_DOCS g' = RADICAL_DOCS g \<and> FAISS_INDEX g' = FAISS_INDEX g
                    | Inr u \<Rightarrow>
                        (\<exists>rows emb index.
                           csv = Inr rows \<and> RADICAL_DOCS g' = Some (map doc_of_row rows)
                           \<and> EMBEDDER g' = Some emb \<and> FAISS_INDEX g' = Some index
                           \<and> length index = length rows
                           \<and> list_all2 (\<lambda>d v. encode W emb d = Inr v) (map doc_of_row rows) index)))"
proof (cases "index_built g")
  case True
  then show ?thesis using assms by (auto simp: ensure_radical_index_def index_built_def)
next
  case False
  then have nb: "\<not> (RADICAL_DOCS g \<noteq> None \<and> EMBEDDER g \<noteq> None \<and> FAISS_INDEX g \<noteq> None)"
    by (simp add: index_built_def)
  show ?thesis
  proof (cases "radicals_csv W")
    case None
    then show ?thesis using assms(2) nb False
      by (auto simp: ensure_radical_index_def rows_match_def split: option.splits)
  next
    case (Some csv)
    show ?thesis
    proof (cases csv)
      case (Inl e)
      then show ?thesis using assms nb False Some
        by (auto simp: ensure_radical_index_def)
    next
      case (Inr rows)
      show ?thesis
      proof (cases "load_embedder W")
        case (Inl e)
        then show ?thesis using assms nb False Some Inr
          by (auto simp: ensure_radical_index_def)
      next
        case emb: (Inr emb)
        show ?thesis
        proof (cases "encode_all W emb (map doc_of_row rows)")
          case (Inl e)
          then show ?thesis using assms nb False Some Inr emb
            by (auto simp: ensure_radical_index_def rows_match_def split: option.splits)
        next
          case vs: (Inr vs)
          have l: "list_all2 (\<lambda>d v. encode W emb d = Inr v) (map doc_of_row rows) vs"
            using vs by (rule encode_all_rows)
          then have len: "length vs = length rows"
            using list_all2_lengthD by fastforce
          show ?thesis
          proof (cases "vs = []")
            case True
            then show ?thesis using assms nb False Some Inr emb vs
              by (auto simp: ensure_radical_index_def rows_match_def split: option.splits)
          next
            case False
            then show ?thesis using assms(2) nb \<open>\<not> index_built g\<close> Some Inr emb vs l len
              by (auto simp: ensure_radical_index_def rows_match_def split: option.splits)
          qed
        qed
      qed
    qed
  qed
qed


lemmas world_eval2 = no_csv_world_def failing_world_def kanji_cat_def

lemma example_index:
  "ensure_radical_index example_world initial_globals
     = (initial_globals\<lparr>EMBEDDER := Some (), FAISS_INDEX := Some [25, 29],
                        RADICAL_DOCS := Some example_docs\<rparr>, Inr ())"
  by (simp add: world_eval text_eval)

lemma no_csv_index:
  "ensure_radical_index no_csv_world initial_globals
     = (initial_globals\<lparr>EMBEDDER := None, FAISS_INDEX := None, RADICAL_DOCS := Some []\<rparr>, Inr ())"
  by (simp add: world_eval world_eval2)

theorem index_rows_match_documents_witness:
  "rows_match (initial_globals :: (unit, nat, unit) globals)
   \<and> rows_match (initial_globals\<lparr>EMBEDDER := Some (), FAISS_INDEX := Some [25, 29],
                                  RADICAL_DOCS := Some example_docs\<rparr> :: (unit, nat, unit) globals)
   \<and> rows_match (initial_globals\<lparr>EMBEDDER := None, FAISS_INDEX := None,
                                  RADICAL_DOCS := Some []\<rparr> :: (unit, nat, unit) globals)
   \<and> ensure_radical_index no_csv_world
        (initial_globals\<lparr>EMBEDDER := None, FAISS_INDEX := None, RADICAL_DOCS := Some []\<rparr>)
       = (initial_globals\<lparr>EMBEDDER := None, FAISS_INDEX := None, RADICAL_DOCS := Some []\<rparr>, Inr ())"
proof -
  have i: "rows_match (initial_globals :: (unit, nat, unit) globals)"
    by (simp add: rows_match_def initial_globals_def)
  have nb: "\<not> index_built (initial_globals :: (unit, nat, unit) globals)"
    by (simp add: index_built_def initial_globals_def)
  have csv: "radicals_csv no_csv_world = None"
    by (simp add: world_eval world_eval2)
  show ?thesis
    using i index_rows_match_documents [OF i example_index]
      index_rows_match_documents [OF i no_csv_index] nb csv
    by simp
qed

subsection \<open>Retrieval without an index\<close>

text \<open>
  C3, as the code has it. The retriever returns the empty list, and returns normally,
  whenever the stored documents are unset or empty or the embedder or the index is
  absent; this is the state that a missing radicals file leaves. The query is not
  inspected: its being empty plays no part.
\<close>

theorem retrieval_empty_without_index:
  assumes "RADICAL_DOCS g = None \<or> RADICAL_DOCS g = Some [] \<or> EMBEDDER g = None
           \<or> FAISS_INDEX g = None"
  shows "retrieve_relevant_radicals W g query_text top_k = Inr []"
  using assms by (auto simp: retrieve_relevant_radicals_def split: option.splits)

theorem retrieval_empty_without_index_witness:
  "RADICAL_DOCS (fst (ensure_radical_index no_csv_world initial_globals)) = Some []
   \<and> retrieve_relevant_radicals no_csv_world
        (fst (ensure_radical_index no_csv_world initial_globals)) (ascii ''Net Shell'') 3 = Inr []"
proof -
  have h: "RADICAL_DOCS (fst (ensure_radical_index no_csv_world initial_globals)) = Some []"
    by (simp add: no_csv_index)
  show ?thesis
    using h retrieval_empty_without_index
      [where g = "fst (ensure_radical_index no_csv_world initial_globals)"
         and W = no_csv_world and query_text = "ascii ''Net Shell''" and top_k = 3]
    by simp
qed

text \<open>
  The claim as the spec states it fails: with an index built, the query made of no radical
  names at all is embedded and searched like any other, and documents come back.
\<close>

theorem retrieval_of_no_radicals_counterexample:
  "retrieve_relevant_radicals example_world example_globals (join (ascii '' '') []) 3
     = Inr example_docs
   \<and> example_docs \<noteq> []"
  by (simp add: retrieve_relevant_radicals_def world_eval getitem_def upt_rec numeral_eq_Suc)

subsection \<open>A kanji without record\<close>

text \<open>
  C2, as the code has it. When the three \<^verbatim>\<open>_ensure\<close> calls have returned and the store
  has no record for the trimmed kanji, \<^verbatim>\<open>generate_mnemonic\<close> does not raise; it returns
  the notice of line 109.
\<close>

theorem not_found_notice:
  assumes "startup W g = (g', Inr ())"
      and "KANJI_DATA g' = Some store"
      and "store (strip kanji) = None"
  shows "generate_mnemonic W g kanji
           = (g', Inr (ascii ''Kanji '' @ strip kanji @ ascii '' not found.''))"
  using assms by (simp add: generate_mnemonic_def mnemonic_body_def not_found_def)

lemma example_store_cat: "example_store (strip [kanji_cat]) = None"
  by (simp add: example_store_def text_eval kanji_cat_def)

theorem not_found_notice_witness:
  "startup example_world initial_globals = (example_globals, Inr ())
   \<and> KANJI_DATA example_globals = Some example_store
   \<and> example_store (strip [kanji_cat]) = None
   \<and> generate_mnemonic example_world initial_globals [kanji_cat]
       = (example_globals, Inr (ascii ''Kanji '' @ strip [kanji_cat] @ ascii '' not found.''))"
proof -
  have k: "KANJI_DATA example_globals = Some example_store"
    by (simp add: example_globals_def)
  show ?thesis
    using example_startup k example_store_cat
      not_found_notice [OF example_startup k example_store_cat]
    by simp
qed

text \<open>
  The claim as the spec states it fails: the notice is returned in place of a mnemonic
  line, and it holds no arrow.
\<close>

theorem not_found_counterexample:
  "snd (generate_mnemonic example_world initial_globals [kanji_cat])
     = Inr (ascii ''Kanji '' @ [kanji_cat] @ ascii '' not found.'')
   \<and> arrow \<notin> set (ascii ''Kanji '' @ [kanji_cat] @ ascii '' not found.'')"
  by (simp add: generate_mnemonic_def example_startup mnemonic_body_def not_found_def
      example_globals_def example_store_def text_eval kanji_cat_def)


subsection \<open>The \<^verbatim>\<open>except\<close> branch\<close>

text \<open>
  C8. Once the record is read and the context retrieved, whenever the pipeline is
  missing, the pipeline call raises, or its response has no \<^verbatim>\<open>generated_text\<close>,
  \<^verbatim>\<open>generate_mnemonic\<close> returns the fallback line of lines 181 and 182, built from the
  kanji, \<^verbatim>\<open>lhs\<close> and the meanings alone.
\<close>

theorem fallback_on_exception:
  assumes "startup W g = (g', Inr ())"
      and "KANJI_DATA g' = Some store"
      and "store (strip kanji) = Some d"
      and "field_list (meanings_field d) = Some ms"
      and "field_list (wk_radicals_field d) = Some rs"
      and "retrieve_relevant_radicals W g' (join (ascii '' '') rs) 3 = Inr retrieved"
      and "m = join (ascii '', '') ms"
      and "lhs = (if rs \<noteq> [] then join (ascii '' + '') rs else m)"
      and "prompt = build_prompt (strip kanji) lhs m (join [10, 10] retrieved)"
      and "case PIPE g' of
             None \<Rightarrow> True
           | Some p \<Rightarrow>
               (case run_pipe W p prompt of
                  Inl e \<Rightarrow> True
                | Inr r \<Rightarrow> (case response_text r of Inl e \<Rightarrow> True | Inr t \<Rightarrow> False))"
  shows "generate_mnemonic W g kanji
           = (g', Inr (strip kanji @ ascii '' = ''
                       @ (if lhs \<noteq> [] then lhs else if m \<noteq> [] then m else [em_dash])
                       @ [32, arrow, 32] @ ascii ''Represents ''
                       @ (if str_lower (unicode W) m \<noteq> [] then str_lower (unicode W) m
                          else ascii ''meaning'')
                       @ ascii '' through its parts.''))"
proof -
  have tg: "try_generate W g' (strip kanji) lhs m prompt
              = fallback_line (unicode W) (strip kanji) lhs m"
    using assms(10) by (auto simp: try_generate_def split: option.splits sum.splits)
  have body: "mnemonic_body W g' kanji = Inr (try_generate W g' (strip kanji) lhs m prompt)"
    using assms(2-6) unfolding assms(7-9)
    by (simp add: mnemonic_body_def py_join_def Let_def split del: if_split)
  show ?thesis
    using assms(1) body tg
    by (simp add: generate_mnemonic_def fallback_line_def Let_def split del: if_split)
qed

lemma failing_startup: "startup failing_world initial_globals = (example_globals, Inr ())"
  by (simp add: world_eval world_eval2 text_eval)

lemma example_store_buy:
  "example_store (strip [kanji_buy])
     = Some \<lparr>meanings_field = Strings [ascii ''buy'', ascii ''purchase''],
             wk_radicals_field = Strings [ascii ''Net'', ascii ''Shell'']\<rparr>"
  by (simp add: example_store_def text_eval)

lemma failing_retrieval:
  "retrieve_relevant_radicals failing_world example_globals
     (join (ascii '' '') [ascii ''Net'', ascii ''Shell'']) 3 = Inr example_docs"
  by (simp add: retrieve_relevant_radicals_def world_eval world_eval2 getitem_def upt_rec
      numeral_eq_Suc)

theorem fallback_on_exception_witness:
  "generate_mnemonic failing_world initial_globals [kanji_buy]
     = (example_globals,
        Inr ([kanji_buy] @ ascii '' = Net + Shell '' @ [arrow]
             @ ascii '' Represents buy, purchase through its parts.''))"
proof -
  have k: "KANJI_DATA example_globals = Some example_store"
    by (simp add: example_globals_def)
  have f1: "field_list (meanings_field \<lparr>meanings_field = Strings [ascii ''buy'', ascii ''purchase''],
             wk_radicals_field = Strings [ascii ''Net'', ascii ''Shell'']\<rparr>)
             = Some [ascii ''buy'', ascii ''purchase'']"
    by (simp add: field_list_def)
  have f2: "field_list (wk_radicals_field \<lparr>meanings_field = Strings [ascii ''buy'', ascii ''purchase''],
             wk_radicals_field = Strings [ascii ''Net'', ascii ''Shell'']\<rparr>)
             = Some [ascii ''Net'', ascii ''Shell'']"
    by (simp add: field_list_def)
  have p: "case PIPE example_globals of
             None \<Rightarrow> True
           | Some p \<Rightarrow>
               (case run_pipe failing_world p
                  (build_prompt (strip [kanji_buy])
                     (if [ascii ''Net'', ascii ''Shell''] \<noteq> []
                      then join (ascii '' + '') [ascii ''Net'', ascii ''Shell'']
                      else join (ascii '', '') [ascii ''buy'', ascii ''purchase''])
                     (join (ascii '', '') [ascii ''buy'', ascii ''purchase''])
                     (join [10, 10] example_docs)) of
                  Inl e \<Rightarrow> True
                | Inr r \<Rightarrow> (case response_text r of Inl e \<Rightarrow> True | Inr t \<Rightarrow> False))"
    by (simp add: example_globals_def failing_world_def example_world_def)
  have s: "strip [kanji_buy] = [kanji_buy]" by (simp add: text_eval)
  have u: "unicode failing_world = basic_tables"
    by (simp add: failing_world_def example_world_def)
  show ?thesis
    using fallback_on_exception
      [OF failing_startup k example_store_buy f1 f2 failing_retrieval refl refl refl p]
    by (simp add: s u str_lower_def ascii_lower_def ascii_def arrow_def)
qed

subsection \<open>Trimming\<close>

lemma lstrip_suffix: "suffix (lstrip s) s"
  by (simp add: lstrip_def suffix_dropWhile)

lemma rstrip_prefix: "prefix (rstrip s) s"
proof -
  have "rev s = takeWhile is_space (rev s) @ dropWhile is_space (rev s)" by simp
  then have "rev (rev s) = rev (takeWhile is_space (rev s) @ dropWhile is_space (rev s))"
    by (rule arg_cong)
  then have "s = rstrip s @ rev (takeWhile is_space (rev s))"
    unfolding rstrip_def rev_append rev_rev_ident .
  then show ?thesis by (rule prefixI)
qed

lemma lstrip_hd: "lstrip s \<noteq> [] \<Longrightarrow> \<not> is_space (hd (lstrip s))"
  unfolding lstrip_def by (rule hd_dropWhile)

lemma rstrip_last: "rstrip s \<noteq> [] \<Longrightarrow> \<not> is_space (last (rstrip s))"
proof -
  assume "rstrip s \<noteq> []"
  then have n: "dropWhile is_space (rev s) \<noteq> []" by (simp add: rstrip_def)
  have "last (rstrip s) = hd (dropWhile is_space (rev s))"
    using n by (simp add: rstrip_def last_rev)
  then show ?thesis using hd_dropWhile [OF n] by simp
qed

lemma lstrip_id: "s = [] \<or> \<not> is_space (hd s) \<Longrightarrow> lstrip s = s"
  by (cases s) (auto simp: lstrip_def)

lemma rstrip_id: "s = [] \<or> \<not> is_space (last s) \<Longrightarrow> rstrip s = s"
proof (cases "s = []")
  case True
  then show ?thesis by (simp add: rstrip_def)
next
  case False
  assume "s = [] \<or> \<not> is_space (last s)"
  then have "\<not> is_space (hd (rev s))" using False by (simp add: hd_rev)
  then have "dropWhile is_space (rev s) = rev s" using False by (cases "rev s") auto
  then show ?thesis by (simp add: rstrip_def)
qed

lemma rstrip_hd: "rstrip s \<noteq> [] \<Longrightarrow> hd (rstrip s) = hd s"
proof -
  assume n: "rstrip s \<noteq> []"
  obtain zs where "s = rstrip s @ zs" using rstrip_prefix [of s] by (auto simp: prefix_def)
  then have "hd s = hd (rstrip s @ zs)" by simp
  then show ?thesis using n by simp
qed

lemma trimmed_strip: "trimmed (strip s)"
proof (cases "strip s = []")
  case True
  then show ?thesis by (simp add: trimmed_def)
next
  case False
  then have n: "rstrip (lstrip s) \<noteq> []" by (simp add: strip_def)
  then have l: "lstrip s \<noteq> []" by (auto simp: rstrip_def)
  have "hd (strip s) = hd (lstrip s)" using rstrip_hd [OF n] by (simp add: strip_def)
  then have "\<not> is_space (hd (strip s))" using lstrip_hd [OF l] by simp
  moreover have "\<not> is_space (last (strip s))" using rstrip_last [OF n] by (simp add: strip_def)
  ultimately show ?thesis by (simp add: trimmed_def)
qed

lemma strip_trimmed: "trimmed s \<Longrightarrow> strip s = s"
  by (auto simp: trimmed_def strip_def lstrip_id rstrip_id)

lemma strip_strip: "strip (strip s) = strip s"
  by (rule strip_trimmed) (rule trimmed_strip)

lemma rstrip_snoc_space: "is_space c \<Longrightarrow> rstrip (s @ [c]) = rstrip s"
  by (simp add: rstrip_def)

lemma lstrip_cons_space: "is_space c \<Longrightarrow> lstrip (c # s) = lstrip s"
  by (simp add: lstrip_def)

lemma strip_cons_space: "is_space c \<Longrightarrow> strip (c # s) = strip s"
  by (simp add: strip_def lstrip_cons_space)

lemma lstrip_snoc_space: "is_space c \<Longrightarrow> lstrip (s @ [c]) = (if lstrip s = [] then [] else lstrip s @ [c])"
  by (induction s) (auto simp: lstrip_def)

lemma strip_snoc_space: "is_space c \<Longrightarrow> strip (s @ [c]) = strip s"
  by (simp add: strip_def lstrip_snoc_space rstrip_snoc_space rstrip_def)

lemma rstrip_append_keep:
  "\<not> is_space c \<Longrightarrow> rstrip (a @ c # b) = a @ c # rstrip b"
  by (auto simp: rstrip_def dropWhile_append)

lemma strip_sublist: "\<exists>a b. s = a @ strip s @ b"
proof -
  obtain a where a: "s = a @ lstrip s" using lstrip_suffix [of s] by (auto simp: suffix_def)
  obtain b where b: "lstrip s = rstrip (lstrip s) @ b"
    using rstrip_prefix [of "lstrip s"] by (auto simp: prefix_def)
  have "s = a @ strip s @ b" using a b by (simp add: strip_def)
  then show ?thesis by blast
qed

lemma set_strip: "set (strip s) \<subseteq> set s"
proof -
  obtain a b where "s = a @ strip s @ b" using strip_sublist by blast
  then have "set s = set a \<union> set (strip s) \<union> set b" by (metis set_append sup_assoc)
  then show ?thesis by blast
qed

lemma strip_keeps: "c \<in> set s \<Longrightarrow> \<not> is_space c \<Longrightarrow> c \<in> set (strip s)"
proof -
  assume c: "c \<in> set s" and n: "\<not> is_space c"
  then obtain a b where s: "s = a @ c # b" by (meson split_list)
  have "c \<in> set (lstrip s)"
    using n unfolding s lstrip_def by (induction a) auto
  then obtain a' b' where l: "lstrip s = a' @ c # b'" by (meson split_list)
  show ?thesis unfolding strip_def l using n by (simp add: rstrip_append_keep)
qed

subsection \<open>Tags\<close>

lemma no_tag_append: "no_tag (xs @ ys) \<Longrightarrow> no_tag xs \<and> no_tag ys"
  by (induction xs) auto

lemma no_tag_prefix: "prefix p r \<Longrightarrow> no_tag r \<Longrightarrow> no_tag p"
  by (auto simp: prefix_def dest: no_tag_append)

lemma no_tag_suffix: "suffix p r \<Longrightarrow> no_tag r \<Longrightarrow> no_tag p"
  by (auto simp: suffix_def dest: no_tag_append)

lemma no_tag_snoc: "no_tag xs \<Longrightarrow> c \<noteq> 62 \<Longrightarrow> no_tag (xs @ [c])"
  by (induction xs) auto

lemma set_remove_tags: "set (remove_tags t) \<subseteq> set t"
proof (induction t rule: remove_tags.induct)
  case 1
  then show ?case by simp
next
  case (2 c r)
  have "set (tl (dropWhile (\<lambda>d. d \<noteq> 62) r)) \<subseteq> set r"
  proof
    fix x assume "x \<in> set (tl (dropWhile (\<lambda>d. d \<noteq> 62) r))"
    then have "x \<in> set (dropWhile (\<lambda>d. d \<noteq> 62) r)"
      by (cases "dropWhile (\<lambda>d. d \<noteq> 62) r") auto
    then show "x \<in> set r" by (rule set_dropWhileD)
  qed
  then show ?case using 2 by auto
qed

lemma no_tag_remove_tags: "no_tag (remove_tags t)"
proof (induction t rule: remove_tags.induct)
  case 1
  then show ?case by simp
next
  case (2 c r)
  then show ?case using set_remove_tags [of r] by auto
qed

lemma remove_tags_id: "no_tag r \<Longrightarrow> remove_tags r = r"
  by (induction r) auto

lemma set_collapse_ws: "set (collapse_ws t) \<subseteq> insert 32 (set t)"
proof (induction t rule: collapse_ws.induct)
  case 1
  then show ?case by simp
next
  case (2 c r)
  have "set (dropWhile is_space r) \<subseteq> set r" by (meson set_dropWhileD subsetI)
  then show ?case using 2 by auto
qed

lemma no_tag_collapse_ws: "no_tag t \<Longrightarrow> no_tag (collapse_ws t)"
proof (induction t rule: collapse_ws.induct)
  case 1
  then show ?case by simp
next
  case (2 c r)
  have s: "no_tag (dropWhile is_space r)"
    using 2(3) no_tag_suffix [OF suffix_dropWhile, of r is_space] by simp
  have m: "62 \<in> set (collapse_ws r) \<Longrightarrow> 62 \<in> set r" using set_collapse_ws [of r] by auto
  show ?case using 2 s m by auto
qed

subsection \<open>Sentence breaks\<close>

lemma no_break_Cons:
  "no_break (c # x) \<longleftrightarrow> (x = [] \<or> \<not> (sentence_end c \<and> is_space (hd x))) \<and> no_break x"
  by (cases x) auto

lemma no_break_append: "no_break (xs @ ys) \<Longrightarrow> no_break xs \<and> no_break ys"
proof (induction xs)
  case Nil
  then show ?case by simp
next
  case (Cons c xs)
  then show ?case by (cases xs) (auto simp: no_break_Cons)
qed

lemma no_break_prefix: "prefix p r \<Longrightarrow> no_break r \<Longrightarrow> no_break p"
  by (auto simp: prefix_def dest: no_break_append)

lemma no_break_suffix: "suffix p r \<Longrightarrow> no_break r \<Longrightarrow> no_break p"
  by (auto simp: suffix_def dest: no_break_append)

lemma no_break_snoc: "no_break xs \<Longrightarrow> \<not> is_space c \<Longrightarrow> no_break (xs @ [c])"
  by (induction xs rule: no_break.induct) auto

lemma first_part_hd: "hd (first_part (c # x)) = c"
  by (cases x) auto

lemma no_break_first_part: "no_break (first_part t)"
  by (induction t rule: first_part.induct) (auto simp: no_break_Cons first_part_hd)

lemma first_part_id: "no_break r \<Longrightarrow> first_part r = r"
  by (induction r rule: first_part.induct) auto

lemma first_part_prefix: "prefix (first_part t) t"
  by (induction t rule: first_part.induct) auto

lemma collapse_ws_Nil: "collapse_ws x = [] \<longleftrightarrow> x = []"
  by (cases x) auto

lemma collapse_ws_hd_space: "x \<noteq> [] \<Longrightarrow> is_space (hd (collapse_ws x)) \<longleftrightarrow> is_space (hd x)"
  by (cases x) (auto simp: is_space_def)

lemma collapse_ws_hd: "x \<noteq> [] \<Longrightarrow> \<not> is_space (hd x) \<Longrightarrow> hd (collapse_ws x) = hd x"
  by (cases x) auto

lemma no_break_collapse_ws: "no_break t \<Longrightarrow> no_break (collapse_ws t)"
proof (induction t rule: collapse_ws.induct)
  case 1
  then show ?case by simp
next
  case (2 c r)
  have r: "no_break r" using 2(3) by (simp add: no_break_Cons)
  show ?case
  proof (cases "is_space c")
    case True
    have "no_break (dropWhile is_space r)"
      using r no_break_suffix [OF suffix_dropWhile] by blast
    then have "no_break (collapse_ws (dropWhile is_space r))" using 2(1) True by simp
    moreover have "\<not> sentence_end 32" by (simp add: sentence_end_def)
    ultimately show ?thesis using True by (simp add: no_break_Cons)
  next
    case False
    have "no_break (collapse_ws r)" using 2(2) False r by simp
    then show ?thesis using False 2(3)
      by (auto simp: no_break_Cons collapse_ws_Nil collapse_ws_hd_space)
  qed
qed

subsection \<open>White space\<close>

lemma single_spaced_Cons:
  "single_spaced (c # x) \<longleftrightarrow>
     (\<not> is_space c \<or> (c = 32 \<and> (x = [] \<or> \<not> is_space (hd x)))) \<and> single_spaced x"
  by (cases x) auto

lemma single_spaced_append: "single_spaced (xs @ ys) \<Longrightarrow> single_spaced xs \<and> single_spaced ys"
proof (induction xs)
  case Nil
  then show ?case by simp
next
  case (Cons c xs)
  then show ?case by (cases xs) (auto simp: single_spaced_Cons)
qed

lemma single_spaced_prefix: "prefix p r \<Longrightarrow> single_spaced r \<Longrightarrow> single_spaced p"
  by (auto simp: prefix_def dest: single_spaced_append)

lemma single_spaced_suffix: "suffix p r \<Longrightarrow> single_spaced r \<Longrightarrow> single_spaced p"
  by (auto simp: suffix_def dest: single_spaced_append)

lemma single_spaced_snoc: "single_spaced xs \<Longrightarrow> \<not> is_space c \<Longrightarrow> single_spaced (xs @ [c])"
  by (induction xs rule: single_spaced.induct) auto

lemma single_spaced_collapse_ws: "single_spaced (collapse_ws t)"
proof (induction t rule: collapse_ws.induct)
  case 1
  then show ?case by simp
next
  case (2 c r)
  show ?case
  proof (cases "is_space c")
    case True
    let ?d = "dropWhile is_space r"
    have "?d = [] \<or> \<not> is_space (hd ?d)" using hd_dropWhile [of is_space r] by blast
    then have "collapse_ws ?d = [] \<or> \<not> is_space (hd (collapse_ws ?d))"
      using collapse_ws_Nil [of ?d] collapse_ws_hd_space [of ?d] by blast
    then show ?thesis using True 2(1) by (auto simp: single_spaced_Cons)
  next
    case False
    then show ?thesis using 2(2) by (simp add: single_spaced_Cons)
  qed
qed

lemma collapse_ws_id: "single_spaced r \<Longrightarrow> collapse_ws r = r"
proof (induction r)
  case Nil
  then show ?case by simp
next
  case (Cons c r)
  then have r: "collapse_ws r = r" by (simp add: single_spaced_Cons)
  show ?case
  proof (cases "is_space c")
    case True
    then have "c = 32" and "r = [] \<or> \<not> is_space (hd r)"
      using Cons.prems by (auto simp: single_spaced_Cons)
    then have "dropWhile is_space r = r" by (cases r) auto
    then show ?thesis using True r \<open>c = 32\<close> by simp
  next
    case False
    then show ?thesis using r by simp
  qed
qed

lemma clean_prefix: "prefix p r \<Longrightarrow> clean r \<Longrightarrow> clean p"
  using set_mono_prefix [of p r]
  by (auto simp: clean_def intro: no_tag_prefix no_break_prefix single_spaced_prefix)

lemma clean_suffix: "suffix p r \<Longrightarrow> clean r \<Longrightarrow> clean p"
  using set_mono_suffix [of p r]
  by (auto simp: clean_def intro: no_tag_suffix no_break_suffix single_spaced_suffix)

lemma clean_snoc:
  "clean r \<Longrightarrow> c \<noteq> arrow \<Longrightarrow> c \<noteq> 62 \<Longrightarrow> \<not> is_space c \<Longrightarrow> clean (r @ [c])"
  by (simp add: clean_def no_tag_snoc no_break_snoc single_spaced_snoc)

lemma clean_strip: "clean r \<Longrightarrow> clean (strip r)"
  unfolding strip_def
  by (meson clean_prefix clean_suffix lstrip_suffix rstrip_prefix)

lemma clean_sentence_core: "clean (sentence_core t)"
proof -
  let ?t2 = "remove_tags (strip t)"
  let ?t3 = "takeWhile (\<lambda>c. c \<noteq> arrow) ?t2"
  let ?t4 = "first_part ?t3"
  let ?t5 = "collapse_ws ?t4"
  have a3: "arrow \<notin> set ?t3" using set_takeWhileD [of arrow "\<lambda>c. c \<noteq> arrow" ?t2] by blast
  have n3: "no_tag ?t3"
    using no_tag_prefix [OF takeWhile_is_prefix no_tag_remove_tags] .
  have p4: "prefix ?t4 ?t3" by (rule first_part_prefix)
  have a4: "arrow \<notin> set ?t4" using a3 set_mono_prefix [OF p4] by blast
  have n4: "no_tag ?t4" using no_tag_prefix [OF p4 n3] .
  have b4: "no_break ?t4" by (rule no_break_first_part)
  have a5: "arrow \<notin> set ?t5" using a4 set_collapse_ws [of ?t4] by (auto simp: arrow_def)
  have "clean ?t5"
    using a5 no_tag_collapse_ws [OF n4] no_break_collapse_ws [OF b4] single_spaced_collapse_ws
    by (simp add: clean_def)
  then have "clean (strip ?t5)" by (rule clean_strip)
  then show ?thesis by (simp add: sentence_core_def Let_def)
qed

lemma trimmed_sentence_core: "trimmed (sentence_core t)"
  by (simp add: sentence_core_def Let_def trimmed_strip)

lemma ellipsis_facts: "ellipsis \<noteq> arrow" "ellipsis \<noteq> 62" "\<not> is_space ellipsis" "\<not> is_cjk ellipsis"
  by (simp_all add: ellipsis_def arrow_def is_space_def is_cjk_def)

lemma clean_one_sentence: "clean (one_sentence t n)"
proof (cases "n < length (sentence_core t)")
  case True
  have "clean (rstrip_chars (ascii '' ,;:'') (take n (sentence_core t)))"
    using clean_prefix [OF rstrip_chars_prefix clean_prefix [OF take_is_prefix clean_sentence_core]] .
  then show ?thesis using True by (simp add: one_sentence_core clean_snoc ellipsis_facts)
next
  case False
  then show ?thesis by (simp add: one_sentence_core clean_sentence_core)
qed

lemma trimmed_one_sentence: "trimmed (one_sentence t n)"
proof (cases "n < length (sentence_core t)")
  case True
  let ?kept = "rstrip_chars (ascii '' ,;:'') (take n (sentence_core t))"
  have p: "prefix ?kept (sentence_core t)"
    using rstrip_chars_prefix take_is_prefix prefix_order.trans by blast
  have "trimmed (?kept @ [ellipsis])"
  proof (cases "?kept = []")
    case True
    then show ?thesis by (simp add: trimmed_def ellipsis_facts)
  next
    case False
    obtain zs where z: "sentence_core t = ?kept @ zs" using p by (auto simp: prefix_def)
    have "hd (sentence_core t) = hd (?kept @ zs)" using z by simp
    then have h: "hd (sentence_core t) = hd ?kept" using False by simp
    have "sentence_core t \<noteq> []" using z False by auto
    then have "\<not> is_space (hd (sentence_core t))"
      using trimmed_sentence_core [of t] by (simp add: trimmed_def)
    then show ?thesis using False h by (simp add: trimmed_def ellipsis_facts)
  qed
  then show ?thesis using True by (simp add: one_sentence_core)
next
  case False
  then show ?thesis by (simp add: one_sentence_core trimmed_sentence_core)
qed

subsection \<open>Leading repetitions\<close>

lemma skip_colon_suffix: "suffix (skip_colon s) s"
  by (cases s) (auto simp: skip_colon_def suffix_ConsI)

lemma match_group_rest:
  assumes "match_group U P s = Some rest"
  shows "suffix rest (drop (length P) s)" and "rest = [] \<or> \<not> is_space (hd rest)"
    and "ci_prefix U P s"
proof -
  have r: "rest = lstrip (skip_colon (lstrip (drop (length P) s)))" and c: "ci_prefix U P s"
    using assms by (auto simp: match_group_def split: if_splits)
  show "suffix rest (drop (length P) s)"
    unfolding r using lstrip_suffix skip_colon_suffix suffix_order.trans by blast
  show "rest = [] \<or> \<not> is_space (hd rest)"
    unfolding r using lstrip_hd by blast
  show "ci_prefix U P s" by (rule c)
qed

lemma match_group_shorter:
  assumes "match_group U P s = Some rest" and "P \<noteq> []"
  shows "length rest < length s"
proof -
  have "length rest \<le> length (drop (length P) s)"
    using match_group_rest(1) [OF assms(1)] by (rule suffix_length_le)
  moreover have "length P \<le> length s"
    using match_group_rest(3) [OF assms(1)] by (simp add: ci_prefix_def)
  ultimately show ?thesis using assms(2) by (cases P) auto
qed

lemma strip_leading_None: "match_group U P s = None \<Longrightarrow> strip_leading U P s = s"
  by (subst strip_leading.simps) simp

lemma strip_leading_Some:
  "match_group U P s = Some rest \<Longrightarrow> length rest < length s
     \<Longrightarrow> strip_leading U P s = strip_leading U P rest"
  by (subst strip_leading.simps) simp

lemma strip_leading_stuck:
  "match_group U P s = Some rest \<Longrightarrow> \<not> length rest < length s \<Longrightarrow> strip_leading U P s = s"
  by (subst strip_leading.simps) simp

lemma strip_leading_noop: "\<not> ci_prefix U P s \<Longrightarrow> strip_leading U P s = s"
  by (rule strip_leading_None) (simp add: match_group_def)

lemma strip_leading_suffix: "suffix (strip_leading U P s) s"
proof (induction U P s rule: strip_leading.induct)
  case (1 U P s)
  show ?case
  proof (cases "match_group U P s")
    case None
    then show ?thesis by (simp add: strip_leading_None)
  next
    case (Some rest)
    show ?thesis
    proof (cases "length rest < length s")
      case True
      have "suffix rest s"
        using match_group_rest(1) [OF Some] suffix_drop suffix_order.trans by blast
      then show ?thesis
        using 1 [OF Some True] Some True suffix_order.trans
        by (fastforce simp: strip_leading_Some)
    next
      case False
      then show ?thesis using Some by (simp add: strip_leading_stuck)
    qed
  qed
qed

lemma strip_leading_hd:
  "s = [] \<or> \<not> is_space (hd s)
     \<Longrightarrow> strip_leading U P s = [] \<or> \<not> is_space (hd (strip_leading U P s))"
proof (induction U P s rule: strip_leading.induct)
  case (1 U P s)
  show ?case
  proof (cases "match_group U P s")
    case None
    then show ?thesis using 1(2) by (simp add: strip_leading_None)
  next
    case (Some rest)
    show ?thesis
    proof (cases "length rest < length s")
      case True
      then show ?thesis
        using 1(1) [OF Some True match_group_rest(2) [OF Some]] Some
        by (simp add: strip_leading_Some)
    next
      case False
      then show ?thesis using Some 1(2) by (simp add: strip_leading_stuck)
    qed
  qed
qed

lemma strip_leading_stops: "P \<noteq> [] \<Longrightarrow> match_group U P (strip_leading U P s) = None"
proof (induction U P s rule: strip_leading.induct)
  case (1 U P s)
  show ?case
  proof (cases "match_group U P s")
    case None
    then show ?thesis by (simp add: strip_leading_None)
  next
    case (Some rest)
    have True: "length rest < length s" using match_group_shorter [OF Some 1(2)] .
    show ?thesis using 1(1) [OF Some True 1(2)] Some True by (simp add: strip_leading_Some)
  qed
qed

subsection \<open>The characters of a result\<close>

lemma set_sentence_core: "set (sentence_core t) \<subseteq> insert 32 (set t)"
proof -
  let ?t1 = "strip t"
  let ?t2 = "remove_tags ?t1"
  let ?t3 = "takeWhile (\<lambda>c. c \<noteq> arrow) ?t2"
  let ?t4 = "first_part ?t3"
  have "set ?t4 \<subseteq> set ?t3" using set_mono_prefix [OF first_part_prefix] .
  also have "\<dots> \<subseteq> set ?t2" using set_mono_prefix [OF takeWhile_is_prefix] .
  also have "\<dots> \<subseteq> set ?t1" by (rule set_remove_tags)
  also have "\<dots> \<subseteq> set t" by (rule set_strip)
  finally have "set ?t4 \<subseteq> set t" .
  then have "set (collapse_ws ?t4) \<subseteq> insert 32 (set t)"
    using set_collapse_ws [of ?t4] by blast
  then have "set (strip (collapse_ws ?t4)) \<subseteq> insert 32 (set t)"
    using set_strip [of "collapse_ws ?t4"] by blast
  then show ?thesis by (simp add: sentence_core_def Let_def)
qed

lemma set_one_sentence: "set (one_sentence t n) \<subseteq> insert ellipsis (insert 32 (set t))"
proof (cases "n < length (sentence_core t)")
  case True
  let ?kept = "rstrip_chars (ascii '' ,;:'') (take n (sentence_core t))"
  have "set ?kept \<subseteq> set (take n (sentence_core t))"
    using set_mono_prefix [OF rstrip_chars_prefix] .
  also have "\<dots> \<subseteq> set (sentence_core t)" using set_mono_prefix [OF take_is_prefix] .
  also have "\<dots> \<subseteq> insert 32 (set t)" by (rule set_sentence_core)
  finally have k: "set ?kept \<subseteq> insert 32 (set t)" .
  have "one_sentence t n = ?kept @ [ellipsis]" using True by (simp add: one_sentence_core)
  then have "set (one_sentence t n) = insert ellipsis (set ?kept)" by simp
  then show ?thesis using k by blast
next
  case False
  then have "one_sentence t n = sentence_core t" by (simp add: one_sentence_core)
  then show ?thesis using set_sentence_core [of t] by auto
qed

subsection \<open>A sentence is never empty when the text starts with a plain character\<close>

lemma first_part_Cons: "\<exists>w. first_part (c # z) = c # w"
  by (cases z) auto

lemma strip_Cons_keep: "\<not> is_space c \<Longrightarrow> strip (c # x) = c # rstrip x"
  using rstrip_append_keep [of c "[]" x] by (simp add: strip_def lstrip_def)

lemma sentence_core_starts:
  assumes "\<not> is_space c" and "c \<noteq> 60" and "c \<noteq> arrow"
  shows "sentence_core (c # x) \<noteq> []"
proof -
  obtain w where w: "first_part (c # takeWhile (\<lambda>c. c \<noteq> arrow) (remove_tags (rstrip x))) = c # w"
    using first_part_Cons by blast
  show ?thesis
    using assms w by (simp add: sentence_core_def Let_def strip_Cons_keep)
qed

lemma one_sentence_starts:
  assumes "\<not> is_space c" and "c \<noteq> 60" and "c \<noteq> arrow"
  shows "one_sentence (c # x) n \<noteq> []"
  using sentence_core_starts [OF assms] by (simp add: one_sentence_core)

subsection \<open>The right-hand side after the steps\<close>

lemma ascii_dot: "ascii ''.'' = [46]"
  by (simp add: ascii_def)

lemma represents_starts: "\<exists>x. ascii ''Represents '' @ y = 82 # x"
  by (simp add: ascii_def)

lemma fallback_sentence:
  "one_sentence (ascii ''Represents '' @ y) n \<noteq> []"
proof -
  obtain x where x: "ascii ''Represents '' @ y = 82 # x" using represents_starts by blast
  have "one_sentence (82 # x) n \<noteq> []"
    by (rule one_sentence_starts) (simp_all add: is_space_def arrow_def)
  then show ?thesis by (simp add: x)
qed

lemma sanitize_right_base:
  obtains base where
    "sanitize_right U lhs m right0 = (if \<not> terminal (last base) then base @ [46] else base)"
    and "base \<noteq> []" and "trimmed base" and "clean base"
    and "set base \<subseteq> insert ellipsis (insert 32 (set (strip_cjk right0)))
         \<or> set base \<subseteq> insert ellipsis (insert 32
              (set (ascii ''Represents '' @ str_lower U m @ ascii ''.'')))"
proof -
  define one where "one = one_sentence (strip_cjk right0) 120"
  define r6 where "r6 = dropWhile (\<lambda>c. c = 61 \<or> is_space c) one"
  define r7 where "r7 = (if lhs \<noteq> [] then strip_leading U (strip lhs) r6 else r6)"
  define r8 where "r8 = (if m \<noteq> [] then strip_leading U (strip m) r7 else r7)"
  define r9 where "r9 = strip r8"
  define fb where "fb = one_sentence (ascii ''Represents '' @ str_lower U m @ ascii ''.'') 120"
  define base where "base = (if r9 = [] then fb else r9)"
  have s6: "suffix r6 one" unfolding r6_def by (rule suffix_dropWhile)
  have s7: "suffix r7 r6" unfolding r7_def by (simp add: strip_leading_suffix)
  have s8: "suffix r8 r7" unfolding r8_def by (simp add: strip_leading_suffix)
  have s: "suffix r8 one" using s6 s7 s8 suffix_order.trans by blast
  have c8: "clean r8" using clean_suffix [OF s] clean_one_sentence by (simp add: one_def)
  have c9: "clean r9" unfolding r9_def using c8 by (rule clean_strip)
  have t9: "trimmed r9" unfolding r9_def by (rule trimmed_strip)
  have "set r9 \<subseteq> set r8" unfolding r9_def by (rule set_strip)
  also have "\<dots> \<subseteq> set one" using set_mono_suffix [OF s] .
  also have "\<dots> \<subseteq> insert ellipsis (insert 32 (set (strip_cjk right0)))"
    unfolding one_def by (rule set_one_sentence)
  finally have set9: "set r9 \<subseteq> insert ellipsis (insert 32 (set (strip_cjk right0)))" .
  have fbn: "fb \<noteq> []" unfolding fb_def by (rule fallback_sentence)
  have fbc: "clean fb" unfolding fb_def by (rule clean_one_sentence)
  have fbt: "trimmed fb" unfolding fb_def by (rule trimmed_one_sentence)
  have fbs: "set fb \<subseteq> insert ellipsis (insert 32
              (set (ascii ''Represents '' @ str_lower U m @ ascii ''.'')))"
    unfolding fb_def by (rule set_one_sentence)
  have bn: "base \<noteq> []" using fbn by (simp add: base_def)
  have bt: "trimmed base" using fbt t9 by (simp add: base_def)
  have bc: "clean base" using fbc c9 by (simp add: base_def)
  have bs: "set base \<subseteq> insert ellipsis (insert 32 (set (strip_cjk right0)))
         \<or> set base \<subseteq> insert ellipsis (insert 32
              (set (ascii ''Represents '' @ str_lower U m @ ascii ''.'')))"
    using set9 fbs by (simp add: base_def)
  have "sanitize_right U lhs m right0
          = (if base \<noteq> [] \<and> \<not> terminal (last base) then base @ ascii ''.'' else base)"
    unfolding sanitize_right_def lhs_stripped_right_def Let_def base_def fb_def r9_def
      r8_def r7_def r6_def one_def by (rule refl)
  then have "sanitize_right U lhs m right0
          = (if \<not> terminal (last base) then base @ [46] else base)"
    using bn by (simp add: ascii_dot)
  then show ?thesis using that bn bt bc bs by blast
qed

lemma sanitize_right_inv:
  "sanitize_right U lhs m right0 \<noteq> []"
  "trimmed (sanitize_right U lhs m right0)"
  "clean (sanitize_right U lhs m right0)"
  "terminal (last (sanitize_right U lhs m right0))"
proof -
  obtain base where
    r: "sanitize_right U lhs m right0 = (if \<not> terminal (last base) then base @ [46] else base)"
    and bn: "base \<noteq> []" and bt: "trimmed base" and bc: "clean base"
    using sanitize_right_base [of U lhs m right0] by blast
  have d: "46 \<noteq> arrow" "\<not> is_space 46" "terminal 46"
    by (simp_all add: arrow_def is_space_def terminal_def)
  show "sanitize_right U lhs m right0 \<noteq> []" using r bn by simp
  show "trimmed (sanitize_right U lhs m right0)"
    using r bn bt d by (auto simp: trimmed_def)
  show "clean (sanitize_right U lhs m right0)"
    using r bc d clean_snoc [of base 46] by simp
  show "terminal (last (sanitize_right U lhs m right0))"
    using r bn d by simp
qed

lemma sanitize_right_no_cjk:
  assumes "list_all (\<lambda>c. \<not> is_cjk c) (str_lower U m)"
  shows "list_all (\<lambda>c. \<not> is_cjk c) (sanitize_right U lhs m right0)"
proof -
  obtain base where
    r: "sanitize_right U lhs m right0 = (if \<not> terminal (last base) then base @ [46] else base)"
    and bs: "set base \<subseteq> insert ellipsis (insert 32 (set (strip_cjk right0)))
         \<or> set base \<subseteq> insert ellipsis (insert 32
              (set (ascii ''Represents '' @ str_lower U m @ ascii ''.'')))"
    using sanitize_right_base [of U lhs m right0] by blast
  have a: "\<forall>c\<in>set (strip_cjk right0). \<not> is_cjk c" by (simp add: strip_cjk_def)
  have b: "\<forall>c\<in>set (ascii ''Represents '' @ str_lower U m @ ascii ''.''). \<not> is_cjk c"
    using assms by (auto simp: list_all_iff ascii_def is_cjk_def)
  have d: "\<not> is_cjk 46" "\<not> is_cjk 32" "\<not> is_cjk ellipsis"
    by (simp_all add: is_cjk_def ellipsis_def)
  have "\<forall>c\<in>set base. \<not> is_cjk c" using bs a b d by blast
  then show ?thesis using r d by (simp add: list_all_iff)
qed

subsection \<open>Fixed points of the steps\<close>

lemma sentence_core_fixed:
  assumes "trimmed r" and "clean r"
  shows "sentence_core r = r"
proof -
  have "\<forall>c\<in>set r. c \<noteq> arrow" using assms(2) by (auto simp: clean_def)
  then have a: "takeWhile (\<lambda>c. c \<noteq> arrow) r = r"
    by (rule takeWhile_eq_all_conv [THEN iffD2])
  have b: "remove_tags r = r" using assms(2) by (simp add: clean_def remove_tags_id)
  have c: "first_part r = r" using assms(2) by (simp add: clean_def first_part_id)
  have d: "collapse_ws r = r" using assms(2) by (simp add: clean_def collapse_ws_id)
  have e: "strip r = r" using assms(1) by (rule strip_trimmed)
  show ?thesis unfolding sentence_core_def Let_def e b a c d e by (rule refl)
qed

lemma sanitize_right_fixed:
  assumes "settled U lhs m r" and "list_all is_space w"
  shows "sanitize_right U lhs m (w @ r) = r"
proof -
  have n: "r \<noteq> []" and t: "trimmed r" and c: "clean r"
    and j: "list_all (\<lambda>c. \<not> is_cjk c) r" and l: "length r \<le> 120" and e: "hd r \<noteq> 61"
    and p: "terminal (last r)"
    and x: "lhs = [] \<or> \<not> ci_prefix U (strip lhs) r"
    and y: "m = [] \<or> \<not> ci_prefix U (strip m) r"
    using assms(1) by (simp_all add: settled_def)
  have wj: "list_all (\<lambda>c. \<not> is_cjk c) w"
    using assms(2) by (auto simp: list_all_iff is_space_def is_cjk_def)
  have f: "strip_cjk (w @ r) = w @ r"
    using j wj by (simp add: strip_cjk_def list_all_iff)
  have sw: "strip (w @ r) = r"
    using assms(2) t by (induction w) (simp_all add: strip_cons_space strip_trimmed)
  have "sentence_core (w @ r) = sentence_core r"
    by (simp add: sentence_core_def Let_def sw strip_trimmed [OF t])
  then have core: "sentence_core (w @ r) = r" using sentence_core_fixed [OF t c] by simp
  have one: "one_sentence (w @ r) 120 = r" using core l by (simp add: one_sentence_core)
  have h: "\<not> is_space (hd r)" using n t by (simp add: trimmed_def)
  have d: "dropWhile (\<lambda>c. c = 61 \<or> is_space c) r = r" using n e h by (cases r) auto
  have s7: "(if lhs \<noteq> [] then strip_leading U (strip lhs) r else r) = r"
    using x by (auto simp: strip_leading_noop)
  have s8: "(if m \<noteq> [] then strip_leading U (strip m) r else r) = r"
    using y by (auto simp: strip_leading_noop)
  have e9: "strip r = r" using t by (rule strip_trimmed)
  have "sanitize_right U lhs m (w @ r)
          = (if (if r = [] then one_sentence (ascii ''Represents '' @ str_lower U m @ ascii ''.'') 120
                 else r) \<noteq> []
                \<and> \<not> terminal (last (if r = []
                     then one_sentence (ascii ''Represents '' @ str_lower U m @ ascii ''.'') 120
                     else r))
             then (if r = [] then one_sentence (ascii ''Represents '' @ str_lower U m @ ascii ''.'') 120
                   else r) @ ascii ''.''
             else (if r = [] then one_sentence (ascii ''Represents '' @ str_lower U m @ ascii ''.'') 120
                   else r))"
    unfolding sanitize_right_def lhs_stripped_right_def Let_def f one d s7 s8 e9 by (rule refl)
  then show ?thesis using n p by simp
qed

lemma sanitize_fixed:
  assumes "arrow \<notin> set L" and "strip L = L" and "settled U lhs m r"
  shows "sanitize U lhs m (L @ [32, arrow, 32] @ r) = L @ [32, arrow, 32] @ r"
proof -
  have a: "\<forall>c\<in>set L. c \<noteq> arrow" using assms(1) by blast
  have tw: "takeWhile (\<lambda>c. c \<noteq> arrow) (L @ [32, arrow, 32] @ r) = L @ [32]"
    using a by (simp add: takeWhile_append2 arrow_def)
  have dw: "dropWhile (\<lambda>c. c \<noteq> arrow) (L @ [32, arrow, 32] @ r) = arrow # 32 # r"
    using a by (simp add: dropWhile_append2 arrow_def)
  have sp: "is_space 32" by (simp add: is_space_def)
  have sl: "strip (L @ [32]) = L" using assms(2) by (simp add: strip_snoc_space sp)
  have sr: "sanitize_right U lhs m (32 # r) = r"
    using sanitize_right_fixed [OF assms(3), of "[32]"] sp by simp
  have m: "arrow \<in> set (L @ [32, arrow, 32] @ r)" by simp
  show ?thesis
    unfolding sanitize_def using m by (simp only: if_True Let_def tw dw sl sr list.sel)
qed

text \<open>
  C5, as the code has it. A second pass of steps 3 to 11 returns the line of the first pass
  unchanged when the right-hand side of that line has at most 120 characters, holds no
  CJK character, and does not begin with \<open>=\<close>, nor with \<^verbatim>\<open>lhs\<close> or the meanings in any
  letter case.
\<close>

theorem sanitize_twice:
  assumes "arrow \<in> set line"
      and "right = sanitize_right U lhs m (tl (dropWhile (\<lambda>c. c \<noteq> arrow) line))"
      and "length right \<le> 120"
      and "hd right \<noteq> 61"
      and "lhs = [] \<or> \<not> ci_prefix U (strip lhs) right"
      and "m = [] \<or> \<not> ci_prefix U (strip m) right"
      and "list_all (\<lambda>c. \<not> is_cjk c) right"
  shows "sanitize U lhs m line = strip (takeWhile (\<lambda>c. c \<noteq> arrow) line) @ [32, arrow, 32] @ right
       \<and> sanitize U lhs m (sanitize U lhs m line) = sanitize U lhs m line"
proof -
  let ?L = "strip (takeWhile (\<lambda>c. c \<noteq> arrow) line)"
  have eq: "sanitize U lhs m line = ?L @ [32, arrow, 32] @ right"
    using assms(1,2) by (simp add: sanitize_def Let_def)
  have "arrow \<notin> set (takeWhile (\<lambda>c. c \<noteq> arrow) line)"
    using set_takeWhileD [of arrow "\<lambda>c. c \<noteq> arrow" line] by blast
  then have a: "arrow \<notin> set ?L" using set_strip by blast
  have s: "settled U lhs m right"
    using assms(3-7) sanitize_right_inv [of U lhs m "tl (dropWhile (\<lambda>c. c \<noteq> arrow) line)"]
    unfolding assms(2) settled_def by simp
  show ?thesis using sanitize_fixed [OF a strip_strip s] eq by simp
qed

lemmas group_eval =
  match_group_def ci_prefix_def word_boundary_def word_at_def
  first_char_def last_char_def skip_colon_def basic_tables_def str_lower_def
  strip_leading_None strip_leading_Some strip_leading_stuck

lemmas example_eval = example_lhs_def example_meanings_def example_answer_def repeated_line_def

subsection \<open>Idempotence, concretely\<close>

lemma example_answer_right:
  "sanitize_right basic_tables example_lhs example_meanings
     (tl (dropWhile (\<lambda>c. c \<noteq> arrow) example_answer))
   = ascii ''Buying involves catching valuable shells in a net.''"
  unfolding sanitize_right_def lhs_stripped_right_def one_sentence_def Let_def example_eval
  by (simp add: group_eval text_eval)

lemma example_answer_sanitized:
  "sanitize basic_tables example_lhs example_meanings example_answer = example_answer"
  unfolding sanitize_def sanitize_right_def lhs_stripped_right_def one_sentence_def Let_def
    example_eval
  by (simp add: group_eval text_eval)

theorem sanitize_twice_witness:
  "sanitize basic_tables example_lhs example_meanings example_answer = example_answer
   \<and> sanitize basic_tables example_lhs example_meanings
       (sanitize basic_tables example_lhs example_meanings example_answer)
     = sanitize basic_tables example_lhs example_meanings example_answer"
proof -
  let ?r = "ascii ''Buying involves catching valuable shells in a net.''"
  have h1: "arrow \<in> set example_answer" by (simp add: example_eval text_eval)
  have h2: "?r = sanitize_right basic_tables example_lhs example_meanings
                   (tl (dropWhile (\<lambda>c. c \<noteq> arrow) example_answer))"
    by (simp add: example_answer_right)
  have h3: "length ?r \<le> 120" by (simp add: ascii_def)
  have h4: "hd ?r \<noteq> 61" by (simp add: ascii_def)
  have h5: "example_lhs = [] \<or> \<not> ci_prefix basic_tables (strip example_lhs) ?r"
    by (simp add: example_eval group_eval text_eval)
  have h6: "example_meanings = [] \<or> \<not> ci_prefix basic_tables (strip example_meanings) ?r"
    by (simp add: example_eval group_eval text_eval)
  have h7: "list_all (\<lambda>c. \<not> is_cjk c) ?r" by (simp add: text_eval)
  have l: "strip (takeWhile (\<lambda>c. c \<noteq> arrow) example_answer) @ [32, arrow, 32] @ ?r
             = example_answer"
    by (simp add: example_eval text_eval)
  show ?thesis using sanitize_twice [OF h1 h2 h3 h4 h5 h6 h7] l by simp
qed

text \<open>
  The claim as the spec states it fails. The first pass removes the leading meanings (step
  8) and so uncovers a leading \<^verbatim>\<open>lhs\<close>, which only a second pass removes (step 7): the
  output of the steps is changed by the steps.
\<close>

theorem sanitize_twice_counterexample:
  "sanitize basic_tables example_lhs example_meanings repeated_line
     = [kanji_buy] @ ascii '' = Net + Shell '' @ [arrow]
       @ ascii '' Net + Shell: a net full of shells.''
   \<and> sanitize basic_tables example_lhs example_meanings
       (sanitize basic_tables example_lhs example_meanings repeated_line)
     = [kanji_buy] @ ascii '' = Net + Shell '' @ [arrow] @ ascii '' a net full of shells.''
   \<and> sanitize basic_tables example_lhs example_meanings
       (sanitize basic_tables example_lhs example_meanings repeated_line)
     \<noteq> sanitize basic_tables example_lhs example_meanings repeated_line"
proof -
  have a: "sanitize basic_tables example_lhs example_meanings repeated_line
     = [kanji_buy] @ ascii '' = Net + Shell '' @ [arrow]
       @ ascii '' Net + Shell: a net full of shells.''"
    unfolding sanitize_def sanitize_right_def lhs_stripped_right_def one_sentence_def Let_def
      example_eval
    by (simp add: group_eval text_eval)
  have b: "sanitize basic_tables example_lhs example_meanings
       ([kanji_buy] @ ascii '' = Net + Shell '' @ [arrow]
         @ ascii '' Net + Shell: a net full of shells.'')
     = [kanji_buy] @ ascii '' = Net + Shell '' @ [arrow] @ ascii '' a net full of shells.''"
    unfolding sanitize_def sanitize_right_def lhs_stripped_right_def one_sentence_def Let_def
      example_eval
    by (simp add: group_eval text_eval)
  show ?thesis unfolding a b by (simp add: text_eval)
qed

subsection \<open>The leading repetition of \<^verbatim>\<open>lhs\<close>\<close>

lemma is_word_not_colon: "is_word U c \<Longrightarrow> c \<noteq> 58 \<and> \<not> is_space c"
  by (auto simp: is_word_def ascii_alnum_def is_space_def split: if_splits)

text \<open>
  C7, as the code has it. After step 7 (line 168) the right-hand side begins with \<^verbatim>\<open>lhs\<close>,
  in a letter case that ends with a word character, only as the beginning of a longer
  word: the next character is a word character, so neither a colon nor white space nor
  the end of the text. Every repetition of \<^verbatim>\<open>lhs\<close> with its colon is gone at that point.
\<close>

theorem lhs_repetition_removed:
  assumes "strip lhs \<noteq> []"
      and "right = lhs_stripped_right U lhs right0"
      and "ci_prefix U (strip lhs) right"
      and "is_word U (right ! (length (strip lhs) - 1))"
  shows "length (strip lhs) < length right
       \<and> is_word U (right ! length (strip lhs))
       \<and> right ! length (strip lhs) \<noteq> 58
       \<and> \<not> is_space (right ! length (strip lhs))"
proof -
  let ?P = "strip lhs"
  let ?n = "length ?P"
  have l: "lhs \<noteq> []" using assms(1) by (auto simp: strip_def lstrip_def rstrip_def)
  obtain r6 where "right = strip_leading U ?P r6"
    using assms(2) l by (simp add: lhs_stripped_right_def Let_def)
  then have "match_group U ?P right = None"
    using strip_leading_stops [OF assms(1)] by simp
  then have nb: "\<not> word_boundary U (last_char (take ?n right)) (first_char (drop ?n right))"
    using assms(3) by (auto simp: match_group_def split: if_splits)
  have n: "0 < ?n" "?n \<le> length right" using assms(1,3) by (simp_all add: ci_prefix_def)
  then have ne: "take ?n right \<noteq> []" by auto
  have lt: "length (take ?n right) = ?n" using n by simp
  have "last (take ?n right) = take ?n right ! (?n - 1)"
    using last_conv_nth [OF ne] lt by simp
  also have "\<dots> = right ! (?n - 1)" using n by (intro nth_take) simp
  finally have "last (take ?n right) = right ! (?n - 1)" .
  with ne have "word_at U (last_char (take ?n right))"
    using assms(4) by (simp add: last_char_def word_at_def)
  then have w: "word_at U (first_char (drop ?n right))" using nb by (simp add: word_boundary_def)
  then have d: "drop ?n right \<noteq> []" by (auto simp: first_char_def word_at_def)
  then have len: "?n < length right" by simp
  have "is_word U (hd (drop ?n right))"
    using w d by (cases "drop ?n right") (auto simp: first_char_def word_at_def)
  then have "is_word U (right ! ?n)" using len by (simp add: hd_drop_conv_nth)
  then show ?thesis using len is_word_not_colon by blast
qed

lemma network_right:
  "lhs_stripped_right basic_tables (ascii ''Net'') (ascii '' Net: Network of shells.'')
     = ascii ''Network of shells.''"
  unfolding lhs_stripped_right_def one_sentence_def Let_def
  by (simp add: group_eval text_eval)

theorem lhs_repetition_removed_witness:
  "lhs_stripped_right basic_tables (ascii ''Net'') (ascii '' Net: Network of shells.'')
     = ascii ''Network of shells.''
   \<and> ci_prefix basic_tables (strip (ascii ''Net'')) (ascii ''Network of shells.'')
   \<and> length (strip (ascii ''Net'')) < length (ascii ''Network of shells.'')
   \<and> is_word basic_tables (ascii ''Network of shells.'' ! length (strip (ascii ''Net'')))
   \<and> ascii ''Network of shells.'' ! length (strip (ascii ''Net'')) \<noteq> 58"
proof -
  have h1: "strip (ascii ''Net'') \<noteq> []" by (simp add: text_eval)
  have h2: "ascii ''Network of shells.''
              = lhs_stripped_right basic_tables (ascii ''Net'') (ascii '' Net: Network of shells.'')"
    by (simp add: network_right)
  have h3: "ci_prefix basic_tables (strip (ascii ''Net'')) (ascii ''Network of shells.'')"
    by (simp add: group_eval text_eval)
  have h4: "is_word basic_tables
              (ascii ''Network of shells.'' ! (length (strip (ascii ''Net'')) - 1))"
    by (simp add: group_eval text_eval)
  show ?thesis using lhs_repetition_removed [OF h1 h2 h3 h4] h3 network_right by simp
qed

text \<open>
  The claim as the spec states it fails on the returned right-hand side: step 8 removes the
  leading meanings after step 7 has run, and the \<^verbatim>\<open>lhs\<close> with its colon that stood behind
  them is at the front of the result.
\<close>

theorem lhs_repetition_counterexample:
  "prefix (ascii ''Net:'') (ascii ''Net: buy: Net: a net.'')
   \<and> sanitize_right basic_tables (ascii ''Net'') (ascii ''buy'') (ascii ''Net: buy: Net: a net.'')
       = ascii ''Net: a net.''
   \<and> prefix (ascii ''Net:'')
       (sanitize_right basic_tables (ascii ''Net'') (ascii ''buy'') (ascii ''Net: buy: Net: a net.''))"
proof -
  have a: "sanitize_right basic_tables (ascii ''Net'') (ascii ''buy'') (ascii ''Net: buy: Net: a net.'')
       = ascii ''Net: a net.''"
    unfolding sanitize_right_def lhs_stripped_right_def one_sentence_def Let_def
    by (simp add: group_eval text_eval)
  show ?thesis unfolding a by (simp add: ascii_def)
qed

subsection \<open>The synthesized line\<close>





subsection \<open>The shape of the returned line\<close>

lemma arrow_not_space: "\<not> is_space arrow"
  by (simp add: arrow_def is_space_def)

lemma rstrip_keeps: "c \<in> set x \<Longrightarrow> \<not> is_space c \<Longrightarrow> c \<in> set (rstrip x)"
proof -
  assume c: "c \<in> set x" and n: "\<not> is_space c"
  then obtain a b where "x = a @ c # b" by (meson split_list)
  then show ?thesis using n by (simp add: rstrip_append_keep)
qed

lemma lstrip_spaces: "list_all is_space w \<Longrightarrow> \<not> is_space c \<Longrightarrow> lstrip (w @ c # x) = c # x"
  by (induction w) (simp_all add: lstrip_def)

lemma strip_headed:
  assumes "k = [] \<or> \<not> is_space (hd k)" and "list_all is_space w"
  shows "\<exists>w'. list_all is_space w' \<and> strip (k @ w @ 61 # x) = k @ w' @ 61 # rstrip x"
proof (cases "k = []")
  case True
  have e: "\<not> is_space 61" by (simp add: is_space_def)
  have "lstrip (k @ w @ 61 # x) = 61 # x" using True assms(2) e by (simp add: lstrip_spaces)
  then have "strip (k @ w @ 61 # x) = k @ [] @ 61 # rstrip x"
    using True e rstrip_append_keep [of 61 "[]" x] by (simp add: strip_def)
  moreover have "list_all is_space []" by simp
  ultimately show ?thesis by blast
next
  case False
  have e: "\<not> is_space 61" by (simp add: is_space_def)
  have "hd (k @ w @ 61 # x) = hd k" using False by simp
  then have "lstrip (k @ w @ 61 # x) = k @ w @ 61 # x"
    using False assms(1) by (intro lstrip_id) simp
  moreover have "rstrip ((k @ w) @ 61 # x) = (k @ w) @ 61 # rstrip x"
    using e by (rule rstrip_append_keep)
  ultimately have "strip (k @ w @ 61 # x) = k @ w @ 61 # rstrip x" by (simp add: strip_def)
  then show ?thesis using assms(2) by blast
qed

lemma lstrip_split: "\<exists>w. list_all is_space w \<and> s = w @ lstrip s"
proof -
  have "s = takeWhile is_space s @ lstrip s" by (simp add: lstrip_def)
  moreover have "list_all is_space (takeWhile is_space s)"
    by (simp add: list_all_iff) (meson set_takeWhileD)
  ultimately show ?thesis by blast
qed

lemma match_here_shape:
  assumes "match_here k s = Some mt"
  shows "\<exists>w rest. mt = k @ w @ 61 # rest \<and> list_all is_space w \<and> arrow \<in> set rest"
proof -
  from assms have p: "prefix k s" by (auto simp: match_here_def split: if_splits)
  then obtain s1 where s: "s = k @ s1" by (auto simp: prefix_def)
  from assms p obtain r where l1: "lstrip s1 = 61 # r"
    by (auto simp: match_here_def s split: if_splits list.splits)
  define body where "body = lstrip r"
  define after where "after = tl (dropWhile (\<lambda>d. d \<noteq> arrow) body)"
  define unmatched where "unmatched = dropWhile (\<lambda>d. d \<noteq> 10) after"
  from assms p l1 have a: "arrow \<in> set body"
    and m: "mt = take (length s - length unmatched) s"
    by (auto simp: match_here_def s Let_def body_def after_def unmatched_def split: if_splits)
  obtain w where w: "list_all is_space w" "s1 = w @ 61 # r"
    using lstrip_split [of s1] l1 by auto
  obtain w2 where w2: "r = w2 @ body" using lstrip_split [of r] body_def by auto
  have "dropWhile (\<lambda>d. d \<noteq> arrow) body \<noteq> []" using a by simp
  moreover from this have "hd (dropWhile (\<lambda>d. d \<noteq> arrow) body) = arrow"
    using hd_dropWhile [of "\<lambda>d. d \<noteq> arrow" body] by simp
  ultimately have dw: "dropWhile (\<lambda>d. d \<noteq> arrow) body = arrow # after"
    unfolding after_def by (cases "dropWhile (\<lambda>d. d \<noteq> arrow) body") auto
  have b: "body = takeWhile (\<lambda>d. d \<noteq> arrow) body @ arrow # after"
    using takeWhile_dropWhile_id [of "\<lambda>d. d \<noteq> arrow" body] dw by simp
  have af: "after = takeWhile (\<lambda>d. d \<noteq> 10) after @ unmatched"
    by (simp add: unmatched_def)
  define rest where
    "rest = w2 @ takeWhile (\<lambda>d. d \<noteq> arrow) body @ arrow # takeWhile (\<lambda>d. d \<noteq> 10) after"
  have "r = rest @ unmatched"
    unfolding rest_def using w2 b af by (metis append.assoc append_Cons)
  then have "s = (k @ w @ 61 # rest) @ unmatched" using s w(2) by simp
  then have "mt = k @ w @ 61 # rest" using m by simp
  moreover have "arrow \<in> set rest" by (simp add: rest_def)
  ultimately show ?thesis using w(1) by blast
qed

lemma search_line_shape:
  "search_line k t = Some mt
     \<Longrightarrow> \<exists>w rest. mt = k @ w @ 61 # rest \<and> list_all is_space w \<and> arrow \<in> set rest"
proof (induction t)
  case Nil
  then show ?case using match_here_shape by simp
next
  case (Cons c r)
  then show ?case using match_here_shape [of k "c # r"]
    by (cases "match_here k (c # r)") auto
qed

lemma sanitize_shape:
  assumes "line = k @ w @ 61 # rest" and "arrow \<in> set rest"
      and "k = [] \<or> \<not> is_space (hd k)" and "list_all is_space w"
  shows "\<exists>head. sanitize U lhs m line
                  = head @ [32, arrow, 32]
                    @ sanitize_right U lhs m (tl (dropWhile (\<lambda>c. c \<noteq> arrow) line))
           \<and> (arrow \<notin> set k
                \<longrightarrow> (\<exists>w' left. list_all is_space w' \<and> head = k @ w' @ 61 # left))"
proof -
  have "arrow \<in> set line" using assms(1,2) by simp
  then have s: "sanitize U lhs m line
      = strip (takeWhile (\<lambda>c. c \<noteq> arrow) line) @ [32, arrow, 32]
        @ sanitize_right U lhs m (tl (dropWhile (\<lambda>c. c \<noteq> arrow) line))"
    by (simp add: sanitize_def Let_def)
  have "\<exists>w' left. list_all is_space w'
          \<and> strip (takeWhile (\<lambda>c. c \<noteq> arrow) line) = k @ w' @ 61 # left"
    if na: "arrow \<notin> set k"
  proof -
    have aw: "\<forall>c\<in>set (k @ w). c \<noteq> arrow"
      using na assms(4) arrow_not_space by (auto simp: list_all_iff)
    have "takeWhile (\<lambda>c. c \<noteq> arrow) ((k @ w) @ 61 # rest)
            = (k @ w) @ takeWhile (\<lambda>c. c \<noteq> arrow) (61 # rest)"
      by (rule takeWhile_append2) (use aw in blast)
    then have tw: "takeWhile (\<lambda>c. c \<noteq> arrow) line
                     = k @ w @ 61 # takeWhile (\<lambda>c. c \<noteq> arrow) rest"
      by (simp add: assms(1) arrow_def)
    obtain w' where "list_all is_space w'"
      "strip (takeWhile (\<lambda>c. c \<noteq> arrow) line)
         = k @ w' @ 61 # rstrip (takeWhile (\<lambda>c. c \<noteq> arrow) rest)"
      using strip_headed [OF assms(3,4)] tw by metis
    then show ?thesis by blast
  qed
  then show ?thesis using s by blast
qed

lemma normalize_shape:
  assumes "k = [] \<or> \<not> is_space (hd k)"
  shows "\<exists>head right. normalize U k lhs m generated = head @ [32, arrow, 32] @ right
           \<and> right \<noteq> [] \<and> terminal (last right)
           \<and> (arrow \<notin> set k
                \<longrightarrow> (\<exists>w left. list_all is_space w \<and> head = k @ w @ 61 # left))
           \<and> (list_all (\<lambda>c. \<not> is_cjk c) (str_lower U m)
                \<longrightarrow> list_all (\<lambda>c. \<not> is_cjk c) right)"
proof -
  define collapsed where "collapsed = collapse_ws (map (\<lambda>c. if c = 124 then 32 else c) generated)"
  define line where
    "line = (case search_line k collapsed of Some mt \<Rightarrow> strip mt | None \<Rightarrow> synthesized_line U k lhs m)"
  define right where "right = sanitize_right U lhs m (tl (dropWhile (\<lambda>c. c \<noteq> arrow) line))"
  have n: "normalize U k lhs m generated = sanitize U lhs m line"
    by (simp add: normalize_def Let_def line_def collapsed_def)
  have "\<exists>w rest. line = k @ w @ 61 # rest \<and> list_all is_space w \<and> arrow \<in> set rest"
  proof (cases "search_line k collapsed")
    case None
    then have "line = synthesized_line U k lhs m" by (simp add: line_def)
    moreover have "synthesized_line U k lhs m
            = k @ [32] @ 61 # (32 # lhs @ [32, arrow, 32] @ ascii ''Represents '' @ str_lower U m
                @ ascii '' through its parts.'')"
      by (simp add: synthesized_line_def ascii_def)
    moreover have "list_all is_space [32]" by (simp add: is_space_def)
    moreover have "arrow \<in> set (32 # lhs @ [32, arrow, 32] @ ascii ''Represents '' @ str_lower U m
                @ ascii '' through its parts.'')" by simp
    ultimately show ?thesis by metis
  next
    case (Some mt)
    obtain w rest where mt: "mt = k @ w @ 61 # rest" "list_all is_space w" "arrow \<in> set rest"
      using search_line_shape [OF Some] by blast
    obtain w' where w': "list_all is_space w'" "strip mt = k @ w' @ 61 # rstrip rest"
      using strip_headed [OF assms mt(2)] mt(1) by metis
    have "arrow \<in> set (rstrip rest)" using mt(3) arrow_not_space by (rule rstrip_keeps)
    moreover have "line = strip mt" using Some by (simp add: line_def)
    ultimately show ?thesis using w' by metis
  qed
  then obtain w rest where l: "line = k @ w @ 61 # rest" "list_all is_space w" "arrow \<in> set rest"
    by blast
  obtain head where s: "sanitize U lhs m line = head @ [32, arrow, 32] @ right"
    and h: "arrow \<notin> set k \<longrightarrow> (\<exists>w left. list_all is_space w \<and> head = k @ w @ 61 # left)"
    using sanitize_shape [OF l(1) l(3) assms l(2), of U lhs m] unfolding right_def by blast
  have r: "right \<noteq> []" "terminal (last right)"
    unfolding right_def
    using sanitize_right_inv(1,4) [of U lhs m "tl (dropWhile (\<lambda>c. c \<noteq> arrow) line)"]
    by blast+
  have c: "list_all (\<lambda>c. \<not> is_cjk c) (str_lower U m) \<longrightarrow> list_all (\<lambda>c. \<not> is_cjk c) right"
    unfolding right_def using sanitize_right_no_cjk by blast
  show ?thesis using n s h r c by metis
qed

lemma fallback_shape:
  "\<exists>head right. fallback_line U k lhs m = head @ [32, arrow, 32] @ right
     \<and> right \<noteq> [] \<and> terminal (last right)
     \<and> (arrow \<notin> set k
          \<longrightarrow> (\<exists>w left. list_all is_space w \<and> head = k @ w @ 61 # left))
     \<and> (list_all (\<lambda>c. \<not> is_cjk c) (str_lower U m)
          \<longrightarrow> list_all (\<lambda>c. \<not> is_cjk c) right)"
proof -
  define flhs where "flhs = (if lhs \<noteq> [] then lhs else if m \<noteq> [] then m else [em_dash])"
  define x where "x = (if str_lower U m \<noteq> [] then str_lower U m else ascii ''meaning'')"
  define right where "right = ascii ''Represents '' @ x @ ascii '' through its parts.''"
  define head where "head = k @ [32] @ 61 # (32 # flhs)"
  have f: "fallback_line U k lhs m = head @ [32, arrow, 32] @ right"
    by (simp add: fallback_line_def Let_def flhs_def x_def right_def head_def ascii_def)
  have c: "list_all (\<lambda>c. \<not> is_cjk c) right" if "list_all (\<lambda>c. \<not> is_cjk c) (str_lower U m)"
  proof -
    have "list_all (\<lambda>c. \<not> is_cjk c) x"
      using that by (simp add: x_def ascii_def is_cjk_def)
    then show ?thesis by (simp add: right_def ascii_def is_cjk_def)
  qed
  have n: "right \<noteq> []" by (simp add: right_def ascii_def)
  have t: "terminal (last right)" by (simp add: right_def ascii_def terminal_def)
  have "list_all is_space [32]" by (simp add: is_space_def)
  then have h: "\<exists>w left. list_all is_space w \<and> head = k @ w @ 61 # left"
    unfolding head_def by blast
  show ?thesis using f c n t h by blast
qed

lemma mnemonic_body_generate:
  assumes "KANJI_DATA g = Some store"
      and "store (strip kanji) = Some d"
      and "field_list (meanings_field d) = Some ms"
      and "field_list (wk_radicals_field d) = Some rs"
      and "retrieve_relevant_radicals W g (join (ascii '' '') rs) 3 = Inr retrieved"
      and "m = join (ascii '', '') ms"
      and "lhs = (if rs \<noteq> [] then join (ascii '' + '') rs else m)"
  shows "mnemonic_body W g kanji
           = Inr (try_generate W g (strip kanji) lhs m
                    (build_prompt (strip kanji) lhs m (join [10, 10] retrieved)))"
  using assms(1-5) unfolding assms(6,7)
  by (simp add: mnemonic_body_def py_join_def Let_def split del: if_split)

lemma try_generate_shape:
  assumes "k = [] \<or> \<not> is_space (hd k)"
  shows "\<exists>head right. try_generate W g k lhs m prompt = head @ [32, arrow, 32] @ right
           \<and> right \<noteq> [] \<and> terminal (last right)
           \<and> (arrow \<notin> set k
                \<longrightarrow> (\<exists>w left. list_all is_space w \<and> head = k @ w @ 61 # left))
           \<and> (list_all (\<lambda>c. \<not> is_cjk c) (str_lower (unicode W) m)
                \<longrightarrow> list_all (\<lambda>c. \<not> is_cjk c) right)"
proof -
  have d: "try_generate W g k lhs m prompt = fallback_line (unicode W) k lhs m
        \<or> (\<exists>generated. try_generate W g k lhs m prompt = normalize (unicode W) k lhs m generated)"
    by (auto simp: try_generate_def split: option.splits sum.splits)
  show ?thesis
  proof (cases "try_generate W g k lhs m prompt = fallback_line (unicode W) k lhs m")
    case True
    show ?thesis unfolding True by (rule fallback_shape)
  next
    case False
    then obtain generated where
      n: "try_generate W g k lhs m prompt = normalize (unicode W) k lhs m generated"
      using d by blast
    show ?thesis unfolding n using assms by (rule normalize_shape)
  qed
qed

text \<open>
  C1, as the code has it. When the three \<^verbatim>\<open>_ensure\<close> calls have returned, the store
  holds a record for the trimmed kanji whose \<^verbatim>\<open>meanings\<close> and \<^verbatim>\<open>wk_radicals\<close> are lists,
  and the retrieval has returned, \<^verbatim>\<open>generate_mnemonic\<close> does not raise, whatever the pipeline does;
  it returns a line that holds the arrow between two blanks, followed by a right-hand
  side that is not empty and ends in \<open>.\<close>, \<open>!\<close>, \<open>?\<close> or the ellipsis. When the kanji holds
  no arrow, what stands in front of that arrow is the trimmed kanji, optional white
  space, \<open>=\<close> and some text. When the lower-cased meanings hold no CJK character, the
  right-hand side holds no CJK character. Neither condition is needed for the other's
  conclusion, nor for the arrow and the right-hand side.
\<close>

theorem mnemonic_line_shape:
  assumes "startup W g = (g', Inr ())"
      and "KANJI_DATA g' = Some store"
      and "store (strip kanji) = Some d"
      and "field_list (meanings_field d) = Some ms"
      and "field_list (wk_radicals_field d) = Some rs"
      and "retrieve_relevant_radicals W g' (join (ascii '' '') rs) 3 = Inr retrieved"
  shows "\<exists>head right.
           generate_mnemonic W g kanji = (g', Inr (head @ [32, arrow, 32] @ right))
           \<and> right \<noteq> [] \<and> terminal (last right)
           \<and> (arrow \<notin> set kanji
                \<longrightarrow> (\<exists>w left. list_all is_space w \<and> head = strip kanji @ w @ 61 # left))
           \<and> (list_all (\<lambda>c. \<not> is_cjk c) (str_lower (unicode W) (join (ascii '', '') ms))
                \<longrightarrow> list_all (\<lambda>c. \<not> is_cjk c) right)"
proof -
  define m where "m = join (ascii '', '') ms"
  define lhs where "lhs = (if rs \<noteq> [] then join (ascii '' + '') rs else m)"
  define prompt where "prompt = build_prompt (strip kanji) lhs m (join [10, 10] retrieved)"
  have body: "mnemonic_body W g' kanji = Inr (try_generate W g' (strip kanji) lhs m prompt)"
    unfolding prompt_def by (rule mnemonic_body_generate [OF assms(2-6) m_def lhs_def])
  have gm: "generate_mnemonic W g kanji
              = (g', Inr (try_generate W g' (strip kanji) lhs m prompt))"
    using assms(1) body by (simp add: generate_mnemonic_def)
  have t: "strip kanji = [] \<or> \<not> is_space (hd (strip kanji))"
    using trimmed_strip [of kanji] by (auto simp: trimmed_def)
  obtain head right where
    s: "try_generate W g' (strip kanji) lhs m prompt = head @ [32, arrow, 32] @ right"
    and r: "right \<noteq> []" "terminal (last right)"
    and h: "arrow \<notin> set (strip kanji)
            \<longrightarrow> (\<exists>w left. list_all is_space w \<and> head = strip kanji @ w @ 61 # left)"
    and c: "list_all (\<lambda>c. \<not> is_cjk c) (str_lower (unicode W) m)
            \<longrightarrow> list_all (\<lambda>c. \<not> is_cjk c) right"
    using try_generate_shape [OF t, of W g' lhs m prompt] by blast
  have a: "arrow \<notin> set kanji \<longrightarrow> arrow \<notin> set (strip kanji)" using set_strip by blast
  have "generate_mnemonic W g kanji = (g', Inr (head @ [32, arrow, 32] @ right))"
    using gm s by simp
  then show ?thesis using r h c a unfolding m_def by blast
qed

lemma example_run:
  "generate_mnemonic example_world initial_globals [kanji_buy] = (example_globals, Inr example_answer)"
proof -
  have r: "retrieve_relevant_radicals example_world example_globals
             (join (ascii '' '') [ascii ''Net'', ascii ''Shell'']) 3 = Inr example_docs"
    by (simp add: retrieve_relevant_radicals_def world_eval getitem_def upt_rec numeral_eq_Suc)
  have u: "unicode example_world = basic_tables" by (simp add: example_world_def)
  have p: "PIPE example_globals = Some ()" by (simp add: example_globals_def)
  have k: "KANJI_DATA example_globals = Some example_store" by (simp add: example_globals_def)
  have rp: "run_pipe example_world () prompt = Inr (RespList [Some example_answer])" for prompt
    by (simp add: example_world_def)
  have rt: "response_text (RespList [Some example_answer]) = Inr example_answer"
    by (simp add: response_text_def example_answer_def text_eval)
  have se: "search_line [kanji_buy]
              (collapse_ws (map (\<lambda>c. if c = 124 then 32 else c) example_answer))
            = Some example_answer"
    by (simp add: example_answer_def match_here_def text_eval)
  have st: "strip example_answer = example_answer"
    by (simp add: example_answer_def text_eval)
  have sa: "sanitize basic_tables example_lhs example_meanings example_answer = example_answer"
    by (rule example_answer_sanitized)
  have n: "normalize basic_tables [kanji_buy] example_lhs example_meanings example_answer
             = example_answer"
    by (simp add: normalize_def se st sa)
  have tg: "try_generate example_world example_globals [kanji_buy] example_lhs example_meanings
              prompt = example_answer" for prompt
    by (simp add: try_generate_def p rp rt u n)
  have s: "strip [kanji_buy] = [kanji_buy]" by (simp add: text_eval)
  have f1: "field_list (meanings_field \<lparr>meanings_field = Strings [ascii ''buy'', ascii ''purchase''],
             wk_radicals_field = Strings [ascii ''Net'', ascii ''Shell'']\<rparr>)
             = Some [ascii ''buy'', ascii ''purchase'']"
    by (simp add: field_list_def)
  have f2: "field_list (wk_radicals_field \<lparr>meanings_field = Strings [ascii ''buy'', ascii ''purchase''],
             wk_radicals_field = Strings [ascii ''Net'', ascii ''Shell'']\<rparr>)
             = Some [ascii ''Net'', ascii ''Shell'']"
    by (simp add: field_list_def)
  have j1: "example_meanings = join (ascii '', '') [ascii ''buy'', ascii ''purchase'']"
    by (simp add: example_meanings_def ascii_def)
  have j2: "example_lhs = (if [ascii ''Net'', ascii ''Shell''] \<noteq> []
                            then join (ascii '' + '') [ascii ''Net'', ascii ''Shell'']
                            else example_meanings)"
    by (simp add: example_lhs_def ascii_def)
  have body: "mnemonic_body example_world example_globals [kanji_buy] = Inr example_answer"
    unfolding mnemonic_body_generate [OF k example_store_buy f1 f2 r j1 j2] s tg by (rule refl)
  show ?thesis by (simp add: generate_mnemonic_def example_startup body)
qed

theorem mnemonic_line_shape_witness:
  "generate_mnemonic example_world initial_globals [kanji_buy] = (example_globals, Inr example_answer)
   \<and> (\<exists>w left right.
         generate_mnemonic example_world initial_globals [kanji_buy]
           = (example_globals, Inr (strip [kanji_buy] @ w @ 61 # left @ [32, arrow, 32] @ right))
         \<and> list_all is_space w \<and> right \<noteq> [] \<and> terminal (last right)
         \<and> list_all (\<lambda>c. \<not> is_cjk c) right)"
proof -
  have k: "KANJI_DATA example_globals = Some example_store" by (simp add: example_globals_def)
  have f1: "field_list (meanings_field \<lparr>meanings_field = Strings [ascii ''buy'', ascii ''purchase''],
             wk_radicals_field = Strings [ascii ''Net'', ascii ''Shell'']\<rparr>)
             = Some [ascii ''buy'', ascii ''purchase'']"
    by (simp add: field_list_def)
  have f2: "field_list (wk_radicals_field \<lparr>meanings_field = Strings [ascii ''buy'', ascii ''purchase''],
             wk_radicals_field = Strings [ascii ''Net'', ascii ''Shell'']\<rparr>)
             = Some [ascii ''Net'', ascii ''Shell'']"
    by (simp add: field_list_def)
  have r: "retrieve_relevant_radicals example_world example_globals
             (join (ascii '' '') [ascii ''Net'', ascii ''Shell'']) 3 = Inr example_docs"
    by (simp add: retrieve_relevant_radicals_def world_eval getitem_def upt_rec numeral_eq_Suc)
  have a: "arrow \<notin> set [kanji_buy]" by (simp add: text_eval)
  have c: "list_all (\<lambda>c. \<not> is_cjk c)
             (str_lower (unicode example_world) (join (ascii '', '') [ascii ''buy'', ascii ''purchase'']))"
    by (simp add: example_world_def str_lower_def basic_tables_def text_eval)
  obtain head right where
    g: "generate_mnemonic example_world initial_globals [kanji_buy]
          = (example_globals, Inr (head @ [32, arrow, 32] @ right))"
    and n: "right \<noteq> []" "terminal (last right)"
    and h: "arrow \<notin> set [kanji_buy]
            \<longrightarrow> (\<exists>w left. list_all is_space w \<and> head = strip [kanji_buy] @ w @ 61 # left)"
    and j: "list_all (\<lambda>c. \<not> is_cjk c)
              (str_lower (unicode example_world)
                 (join (ascii '', '') [ascii ''buy'', ascii ''purchase'']))
            \<longrightarrow> list_all (\<lambda>c. \<not> is_cjk c) right"
    using mnemonic_line_shape [OF example_startup k example_store_buy f1 f2 r] by blast
  obtain w left where w: "list_all is_space w" "head = strip [kanji_buy] @ w @ 61 # left"
    using h a by blast
  have "list_all (\<lambda>c. \<not> is_cjk c) right" using j c by blast
  then show ?thesis using g n w example_run by auto
qed

text \<open>
  The claim as the spec states it fails: for a kanji without record the call returns the
  notice of line 109, which neither begins with the kanji nor holds an arrow.
\<close>

theorem mnemonic_line_shape_counterexample:
  "snd (generate_mnemonic example_world initial_globals [kanji_person])
     = Inr (ascii ''Kanji '' @ [kanji_person] @ ascii '' not found.'')
   \<and> \<not> prefix [kanji_person] (ascii ''Kanji '' @ [kanji_person] @ ascii '' not found.'')
   \<and> arrow \<notin> set (ascii ''Kanji '' @ [kanji_person] @ ascii '' not found.'')"
  by (simp add: generate_mnemonic_def example_startup mnemonic_body_def not_found_def
      example_globals_def example_store_def text_eval kanji_person_def)

end
